theory Spec2Isabelle
  imports Complex_Main "HOL-Library.AList" "HOL-Library.Product_Lexorder"
begin

section \<open>UNIETAXI: the dispatch engine of \<^verbatim>\<open>UNIETAXI_webapp.py\<close>\<close>

text \<open>
  Conventions of the embedding.
  \<^item> Python floats are modelled as \<^typ>\<open>real\<close>: \<^verbatim>\<open>math.dist\<close>, the fare and the
    profit are computed exactly, without binary rounding.
  \<^item> Python ints (identifiers, counters) are \<^typ>\<open>int\<close>.
  \<^item> A \<^verbatim>\<open>dict\<close> whose iteration order is observable is an association list in
    insertion order (\<open>AList.update\<close> keeps the position of an existing key and
    appends a new one, as a Python dict does).
  \<^item> \<^verbatim>\<open>Taxi\<close> and \<^verbatim>\<open>RequestObj\<close> are mutable objects shared by several
    collections and threads. Each object is stored once, in the dictionary that owns it
    (\<^verbatim>\<open>taxis\<close>, \<^verbatim>\<open>requests_index\<close>), and every other reference to it (the queue,
    the completed list, the local variables of a thread) is its key.
  \<^item> Values the code takes from the environment (\<^verbatim>\<open>time.time()\<close>,
    \<^verbatim>\<open>random.uniform\<close>, the built-in string \<^verbatim>\<open>hash\<close>) are parameters.
\<close>

subsection \<open>Configuration\<close>

definition MATCH_RADIUS :: real where "MATCH_RADIUS = 2"
definition SERVICE_FEE_RATE :: real where "SERVICE_FEE_RATE = 20 / 100"
definition MADRID_MIN_X :: real where "MADRID_MIN_X = 4037 / 100"
definition MADRID_MAX_X :: real where "MADRID_MAX_X = 4050 / 100"
definition MADRID_MIN_Y :: real where "MADRID_MIN_Y = - (380 / 100)"
definition MADRID_MAX_Y :: real where "MADRID_MAX_Y = - (363 / 100)"

subsection \<open>Numeric helpers\<close>

type_synonym point = "real \<times> real"

text \<open>\<^verbatim>\<open>math.dist\<close> on two 2-tuples.\<close>

definition math_dist :: "point \<Rightarrow> point \<Rightarrow> real" where
  "math_dist p q = sqrt ((fst p - fst q)\<^sup>2 + (snd p - snd q)\<^sup>2)"

text \<open>Python's \<^verbatim>\<open>round(x, n)\<close>: to the nearest multiple of \<open>10^-n\<close>, a tie going to the
  even one.\<close>

definition round_half_even :: "real \<Rightarrow> int" where
  "round_half_even x =
     (let f = \<lfloor>x\<rfloor>; r = x - of_int f
      in if r < 1 / 2 then f else if 1 / 2 < r then f + 1 else if even f then f else f + 1)"

definition py_round :: "real \<Rightarrow> nat \<Rightarrow> real" where
  "py_round x n = of_int (round_half_even (x * 10 ^ n)) / 10 ^ n"

subsection \<open>Models (the dataclasses)\<close>

record Taxi =
  taxi_id :: int
  plate :: string
  location :: point
  rating :: real
  available :: bool
  earnings :: real

record Client =
  client_id :: int
  name :: string
  client_location :: point

record RequestObj =
  request_id :: int
  client :: Client
  origin :: point
  destination :: point
  timestamp :: real
  assigned_taxi :: "int option"
  completed :: bool
  fare :: real

text \<open>The dataclass defaults: \<^verbatim>\<open>Taxi(i, plate, loc)\<close> and
  \<^verbatim>\<open>RequestObj(request_id=.., client=.., origin=.., destination=.., timestamp=..)\<close>.\<close>

definition new_Taxi :: "int \<Rightarrow> string \<Rightarrow> point \<Rightarrow> Taxi" where
  "new_Taxi i p loc =
     \<lparr>taxi_id = i, plate = p, location = loc, rating = 45 / 10, available = True, earnings = 0\<rparr>"

definition new_RequestObj :: "int \<Rightarrow> Client \<Rightarrow> point \<Rightarrow> point \<Rightarrow> real \<Rightarrow> RequestObj" where
  "new_RequestObj rid c org dst ts =
     \<lparr>request_id = rid, client = c, origin = org, destination = dst, timestamp = ts,
      assigned_taxi = None, completed = False, fare = 0\<rparr>"

subsection \<open>Threads\<close>

text \<open>
  The adjudicator thread, as the place it has reached in \<^verbatim>\<open>_adjudicator\<close> and
  \<^verbatim>\<open>_assign_taxi\<close>, with its local variables (the request it holds, the taxis still to
  scan, the candidates found so far, the chosen taxi).
\<close>

datatype adj_pc =
    ANotAlive
  | ATop
  | AWait
  | AAcquire int
  | AScan int "int list" "(real \<times> int) list"
  | AClaim int int
  | ASetAssigned int int
  | ASpawn int int
  | ARelease int bool
  | ARequeue int

text \<open>A trip thread (\<^verbatim>\<open>_service\<close>), one per successful match: the references it was
  started with and the place it has reached. \<open>SPickup p i\<close> and \<open>STrip i\<close> are the two
  calls of \<^verbatim>\<open>move_smooth\<close> before iteration \<open>i\<close> of the loop (\<open>p\<close> is
  \<^verbatim>\<open>start_pos\<close>); the others are the statements of the finalisation, in order.\<close>

datatype svc_pc =
    SStart
  | SPickup point nat
  | STrip nat
  | SFinTaxi
  | SSetFare
  | SSetCompleted
  | SAppend
  | SProfit
  | SRating
  | SSeries
  | SDone

record Service =
  svc_req :: int
  svc_taxi :: int
  svc_pc :: svc_pc

subsection \<open>The central system\<close>

record CentralSystem =
  taxis :: "(int \<times> Taxi) list"
  requests :: "int list"
  requests_index :: "(int \<times> RequestObj) list"
  request_counter :: int
  binary_semaphore :: nat
  completed_services :: "int list"
  company_monthly_profit :: real
  adjudicator_thread :: adj_pc
  running :: bool
  ts_timestamps :: "real list"
  ts_completed :: "nat list"
  ts_profit :: "real list"
  services :: "Service list"

text \<open>\<^verbatim>\<open>CentralSystem.__init__\<close>. The three lists \<open>ts_*\<close> are the values of the
  \<^verbatim>\<open>time_series\<close> dict; \<open>services\<close> are the trip threads started so far (the code
  keeps no reference to them).\<close>

definition CentralSystem_init :: CentralSystem where
  "CentralSystem_init =
     \<lparr>taxis = [], requests = [], requests_index = [], request_counter = 0,
      binary_semaphore = 1, completed_services = [], company_monthly_profit = 0,
      adjudicator_thread = ANotAlive, running = False,
      ts_timestamps = [], ts_completed = [], ts_profit = [], services = []\<rparr>"

definition register_taxi :: "CentralSystem \<Rightarrow> Taxi \<Rightarrow> CentralSystem" where
  "register_taxi s t = s\<lparr>taxis := AList.update (taxi_id t) t (taxis s)\<rparr>"

text \<open>\<^verbatim>\<open>Condition.notify\<close> and \<^verbatim>\<open>notify_all\<close> on \<^verbatim>\<open>new_request_condition\<close>: the only
  thread that ever waits on it is the adjudicator, which is woken if it waits.\<close>

definition notify :: "CentralSystem \<Rightarrow> CentralSystem" where
  "notify s = (if adjudicator_thread s = AWait then s\<lparr>adjudicator_thread := ATop\<rparr> else s)"

text \<open>\<^verbatim>\<open>create_client_request\<close>; \<open>now\<close> is the value of \<^verbatim>\<open>time.time()\<close>.\<close>

definition create_client_request ::
  "CentralSystem \<Rightarrow> Client \<Rightarrow> point \<Rightarrow> point \<Rightarrow> real \<Rightarrow> int \<times> CentralSystem" where
  "create_client_request s c org dst now =
     (let rid = request_counter s + 1;
          r = new_RequestObj rid c org dst now;
          s1 = s\<lparr>request_counter := rid,
                 requests := requests s @ [rid],
                 requests_index := AList.update rid r (requests_index s)\<rparr>
      in (rid, notify s1))"

definition start :: "CentralSystem \<Rightarrow> CentralSystem" where
  "start s =
     (let s1 = s\<lparr>running := True\<rparr>
      in if adjudicator_thread s1 = ANotAlive then s1\<lparr>adjudicator_thread := ATop\<rparr> else s1)"

definition stop :: "CentralSystem \<Rightarrow> CentralSystem" where
  "stop s = notify (s\<lparr>running := False\<rparr>)"

subsection \<open>Matching\<close>

definition taxi_of :: "CentralSystem \<Rightarrow> int \<Rightarrow> Taxi option" where
  "taxi_of s k = map_of (taxis s) k"

definition req_of :: "CentralSystem \<Rightarrow> int \<Rightarrow> RequestObj option" where
  "req_of s rid = map_of (requests_index s) rid"

text \<open>A write to fields of the taxi object with key \<open>k\<close>, or of the request object with
  id \<open>rid\<close>.\<close>

definition update_taxi :: "int \<Rightarrow> (Taxi \<Rightarrow> Taxi) \<Rightarrow> CentralSystem \<Rightarrow> CentralSystem" where
  "update_taxi k f s = s\<lparr>taxis := AList.map_entry k f (taxis s)\<rparr>"

definition update_req :: "int \<Rightarrow> (RequestObj \<Rightarrow> RequestObj) \<Rightarrow> CentralSystem \<Rightarrow> CentralSystem" where
  "update_req rid f s = s\<lparr>requests_index := AList.map_entry rid f (requests_index s)\<rparr>"

text \<open>A candidate is the pair \<^verbatim>\<open>(d, taxi)\<close>, the taxi given by its key.\<close>

type_synonym candidate = "real \<times> int"

text \<open>One iteration of the scan (lines 164 to 169).\<close>

definition scan_taxi :: "point \<Rightarrow> int \<times> Taxi \<Rightarrow> candidate list \<Rightarrow> candidate list" where
  "scan_taxi org kt cands =
     (if \<not> available (snd kt) then cands
      else (let d = math_dist (location (snd kt)) org
            in if d \<le> MATCH_RADIUS then cands @ [(d, fst kt)] else cands))"

definition scan_all :: "point \<Rightarrow> (int \<times> Taxi) list \<Rightarrow> candidate list" where
  "scan_all org ts = foldl (\<lambda>cands kt. scan_taxi org kt cands) [] ts"

text \<open>\<^verbatim>\<open>candidates.sort(key=lambda x: (x[0], -x[1].rating))\<close>: a stable sort on the key,
  tuples compared lexicographically. The rating is read from the taxi object.\<close>

definition rating_of :: "(int \<times> Taxi) list \<Rightarrow> int \<Rightarrow> real" where
  "rating_of ts k = (case map_of ts k of None \<Rightarrow> 0 | Some t \<Rightarrow> rating t)"

definition sort_candidates :: "(int \<times> Taxi) list \<Rightarrow> candidate list \<Rightarrow> candidate list" where
  "sort_candidates ts cands = sort_key (\<lambda>c. (fst c, - rating_of ts (snd c))) cands"

text \<open>Lines 175 to 178, line 179 and line 180, once the taxi is known to be free.\<close>

definition claim_taxi :: "int \<Rightarrow> CentralSystem \<Rightarrow> CentralSystem" where
  "claim_taxi k s = update_taxi k (\<lambda>t. t\<lparr>available := False\<rparr>) s"

definition set_assigned :: "int \<Rightarrow> int \<Rightarrow> CentralSystem \<Rightarrow> CentralSystem" where
  "set_assigned rid tid s = update_req rid (\<lambda>r. r\<lparr>assigned_taxi := Some tid\<rparr>) s"

definition spawn_service :: "int \<Rightarrow> int \<Rightarrow> CentralSystem \<Rightarrow> CentralSystem" where
  "spawn_service rid k s =
     s\<lparr>services := services s @ [\<lparr>svc_req = rid, svc_taxi = k, svc_pc = SStart\<rparr>]\<rparr>"

text \<open>\<^verbatim>\<open>_assign_taxi(req)\<close> run from its first to its last statement with no other thread
  in between. The result is \<open>None\<close> only for a reference to no object, which the code
  cannot hold.\<close>

definition assign_taxi :: "CentralSystem \<Rightarrow> int \<Rightarrow> (bool \<times> CentralSystem) option" where
  "assign_taxi s rid =
     (case req_of s rid of
        None \<Rightarrow> None
      | Some r \<Rightarrow>
          (let candidates = scan_all (origin r) (taxis s)
           in if candidates = [] then Some (False, s)
              else (let chosen = snd (hd (sort_candidates (taxis s) candidates))
                    in case taxi_of s chosen of
                         None \<Rightarrow> None
                       | Some t \<Rightarrow>
                           if \<not> available t then Some (False, s)
                           else Some (True,
                                  spawn_service rid chosen
                                    (set_assigned rid (taxi_id t) (claim_taxi chosen s))))))"

subsection \<open>The trip\<close>

text \<open>The position written by iteration \<open>i\<close> of \<^verbatim>\<open>move_smooth(start, end, steps)\<close>.\<close>

definition move_smooth_pos :: "point \<Rightarrow> point \<Rightarrow> nat \<Rightarrow> nat \<Rightarrow> point" where
  "move_smooth_pos p q steps i =
     (let dlat = (fst q - fst p) / real steps;
          dlon = (snd q - snd p) / real steps
      in (fst p + dlat * real (i + 1), snd p + dlon * real (i + 1)))"

text \<open>Lines 203 and 204. The origin and the destination of a request are written once,
  by its constructor.\<close>

definition trip_fare :: "RequestObj \<Rightarrow> real" where
  "trip_fare r = py_round (math_dist (origin r) (destination r) * (16 / 10) + 2) 2"

definition set_pc :: "nat \<Rightarrow> svc_pc \<Rightarrow> CentralSystem \<Rightarrow> CentralSystem" where
  "set_pc i pc s = s\<lparr>services := (services s)[i := (services s ! i)\<lparr>svc_pc := pc\<rparr>]\<rparr>"

text \<open>
  One step of trip thread \<open>i\<close>: a region under one lock, or one statement outside the
  locks. \<open>sample\<close> is the value of \<^verbatim>\<open>random.uniform(3.7, 5.0)\<close> and \<open>now\<close> that of
  \<^verbatim>\<open>time.time()\<close>, read by the steps that use them. A finished thread has no step.
\<close>

definition svc_step :: "nat \<Rightarrow> real \<Rightarrow> real \<Rightarrow> CentralSystem \<Rightarrow> CentralSystem option" where
  "svc_step i sample now s =
     (if length (services s) \<le> i then None
      else
        (let th = services s ! i; rid = svc_req th; k = svc_taxi th
         in case req_of s rid of
              None \<Rightarrow> None
            | Some r \<Rightarrow>
               (case taxi_of s k of
                  None \<Rightarrow> None
                | Some t \<Rightarrow>
                   (case svc_pc th of
                      SStart \<Rightarrow> Some (set_pc i (SPickup (location t) 0) s)
                    | SPickup p n \<Rightarrow>
                        Some (set_pc i (if n + 1 < 15 then SPickup p (n + 1) else STrip 0)
                               (update_taxi k
                                  (\<lambda>t. t\<lparr>location := move_smooth_pos p (origin r) 15 n\<rparr>) s))
                    | STrip n \<Rightarrow>
                        Some (set_pc i (if n + 1 < 25 then STrip (n + 1) else SFinTaxi)
                               (update_taxi k
                                  (\<lambda>t. t\<lparr>location := move_smooth_pos (origin r) (destination r) 25 n\<rparr>) s))
                    | SFinTaxi \<Rightarrow>
                        Some (set_pc i SSetFare
                               (update_taxi k
                                  (\<lambda>t. t\<lparr>location := destination r, available := True,
                                          earnings := earnings t + trip_fare r * (1 - SERVICE_FEE_RATE)\<rparr>) s))
                    | SSetFare \<Rightarrow>
                        Some (set_pc i SSetCompleted (update_req rid (\<lambda>r. r\<lparr>fare := trip_fare r\<rparr>) s))
                    | SSetCompleted \<Rightarrow>
                        Some (set_pc i SAppend (update_req rid (\<lambda>r. r\<lparr>completed := True\<rparr>) s))
                    | SAppend \<Rightarrow>
                        Some (set_pc i SProfit (s\<lparr>completed_services := completed_services s @ [rid]\<rparr>))
                    | SProfit \<Rightarrow>
                        Some (set_pc i SRating
                               (s\<lparr>company_monthly_profit :=
                                    company_monthly_profit s + trip_fare r * SERVICE_FEE_RATE\<rparr>))
                    | SRating \<Rightarrow>
                        if 37 / 10 \<le> sample \<and> sample \<le> 5
                        then Some (set_pc i SSeries
                               (update_taxi k
                                  (\<lambda>t. t\<lparr>rating := py_round ((rating t + sample) / 2) 2\<rparr>) s))
                        else None
                    | SSeries \<Rightarrow>
                        Some (set_pc i SDone
                               (s\<lparr>ts_timestamps := ts_timestamps s @ [now],
                                  ts_completed := ts_completed s @ [length (completed_services s)],
                                  ts_profit := ts_profit s @ [company_monthly_profit s]\<rparr>))
                    | SDone \<Rightarrow> None))))"

subsection \<open>The adjudicator\<close>

text \<open>
  One step of the adjudicator thread.
  \<^item> \<open>ATop\<close>: the head of the loop (lines 134 to 143). A stopped engine ends the thread;
    an empty queue sends it to wait on the condition; otherwise it takes the first
    request.
  \<^item> \<open>AWait\<close>: the wait ends by its timeout (a notification ends it in \<open>notify\<close>).
  \<^item> \<open>AAcquire\<close>: the semaphore is taken, or the timeout puts the request back.
  \<^item> \<open>AScan\<close>: one taxi of the scan, under that taxi's lock; after the last one, the
    sort and the choice (lines 170 to 174).
  \<^item> \<open>AClaim\<close>, \<open>ASetAssigned\<close>, \<open>ASpawn\<close>: lines 175 to 178, 179 and 180.
  \<^item> \<open>ARelease\<close>: the \<^verbatim>\<open>finally\<close> clause; \<open>ARequeue\<close>: lines 155 to 158.
\<close>

definition adj_step :: "CentralSystem \<Rightarrow> CentralSystem option" where
  "adj_step s =
     (case adjudicator_thread s of
        ANotAlive \<Rightarrow> None
      | ATop \<Rightarrow>
          if \<not> running s then Some (s\<lparr>adjudicator_thread := ANotAlive\<rparr>)
          else (case requests s of
                  [] \<Rightarrow> Some (s\<lparr>adjudicator_thread := AWait\<rparr>)
                | rid # q \<Rightarrow> Some (s\<lparr>requests := q, adjudicator_thread := AAcquire rid\<rparr>))
      | AWait \<Rightarrow> Some (s\<lparr>adjudicator_thread := ATop\<rparr>)
      | AAcquire rid \<Rightarrow>
          if binary_semaphore s = 0
          then Some (s\<lparr>requests := requests s @ [rid], adjudicator_thread := ATop\<rparr>)
          else Some (s\<lparr>binary_semaphore := binary_semaphore s - 1,
                       adjudicator_thread := AScan rid (map fst (taxis s)) []\<rparr>)
      | AScan rid ks cands \<Rightarrow>
          (case req_of s rid of
             None \<Rightarrow> None
           | Some r \<Rightarrow>
              (case ks of
                 k # ks' \<Rightarrow>
                   (case taxi_of s k of
                      None \<Rightarrow> None
                    | Some t \<Rightarrow>
                        Some (s\<lparr>adjudicator_thread := AScan rid ks' (scan_taxi (origin r) (k, t) cands)\<rparr>))
               | [] \<Rightarrow>
                   if cands = [] then Some (s\<lparr>adjudicator_thread := ARelease rid False\<rparr>)
                   else Some (s\<lparr>adjudicator_thread :=
                                  AClaim rid (snd (hd (sort_candidates (taxis s) cands)))\<rparr>)))
      | AClaim rid k \<Rightarrow>
          (case taxi_of s k of
             None \<Rightarrow> None
           | Some t \<Rightarrow>
               if \<not> available t then Some (s\<lparr>adjudicator_thread := ARelease rid False\<rparr>)
               else Some ((claim_taxi k s)\<lparr>adjudicator_thread := ASetAssigned rid k\<rparr>))
      | ASetAssigned rid k \<Rightarrow>
          (case taxi_of s k of
             None \<Rightarrow> None
           | Some t \<Rightarrow> Some ((set_assigned rid (taxi_id t) s)\<lparr>adjudicator_thread := ASpawn rid k\<rparr>))
      | ASpawn rid k \<Rightarrow> Some ((spawn_service rid k s)\<lparr>adjudicator_thread := ARelease rid True\<rparr>)
      | ARelease rid assigned \<Rightarrow>
          Some (s\<lparr>binary_semaphore := binary_semaphore s + 1,
                  adjudicator_thread := (if assigned then ATop else ARequeue rid)\<rparr>)
      | ARequeue rid \<Rightarrow> Some (s\<lparr>requests := requests s @ [rid], adjudicator_thread := ATop\<rparr>))"

subsection \<open>Executions\<close>

text \<open>
  What can happen next: a client thread or the route submits a request, the engine is
  started or stopped, the adjudicator takes a step, or trip thread \<open>i\<close> takes a step.
  An execution is any list of such events, each one possible in the state it meets: the
  threads interleave in every order. A step is a region under one lock or one statement
  outside the locks; the sort of the candidates reads the ratings in one step, and
  \<^verbatim>\<open>create_client_request\<close> is one step. There is one adjudicator thread, the one
  \<^verbatim>\<open>start\<close> creates, and the fleet is registered before the engine runs, as
  \<^verbatim>\<open>start_sim\<close> does.
\<close>

datatype event =
    Submit Client point point real
  | Start
  | Stop
  | Adj
  | Svc nat real real

fun step :: "event \<Rightarrow> CentralSystem \<Rightarrow> CentralSystem option" where
  "step (Submit c org dst now) s = Some (snd (create_client_request s c org dst now))"
| "step Start s = Some (start s)"
| "step Stop s = Some (stop s)"
| "step Adj s = adj_step s"
| "step (Svc i sample now) s = svc_step i sample now s"

fun run :: "event list \<Rightarrow> CentralSystem \<Rightarrow> CentralSystem option" where
  "run [] s = Some s"
| "run (e # es) s = (case step e s of None \<Rightarrow> None | Some s' \<Rightarrow> run es s')"

text \<open>The engine that \<^verbatim>\<open>start_sim\<close> builds before it starts it: a new
  \<^verbatim>\<open>CentralSystem\<close> with the taxis of the fleet registered in order.\<close>

definition fleet_system :: "Taxi list \<Rightarrow> CentralSystem" where
  "fleet_system fleet = foldl register_taxi CentralSystem_init fleet"

subsection \<open>Street resolution\<close>

text \<open>\<^verbatim>\<open>str.strip()\<close> and \<^verbatim>\<open>str.lower()\<close> on the characters of \<^typ>\<open>string\<close>: the
  whitespace characters are the ASCII ones Python strips, and the letters folded are
  \<open>A\<close> to \<open>Z\<close>.\<close>

definition is_space :: "char \<Rightarrow> bool" where
  "is_space c = (of_char c \<in> {9, 10, 11, 12, 13, 28, 29, 30, 31, 32 :: nat})"

definition strip :: "string \<Rightarrow> string" where
  "strip s = rev (dropWhile is_space (rev (dropWhile is_space s)))"

definition lower_char :: "char \<Rightarrow> char" where
  "lower_char c =
     (let n = (of_char c :: nat) in if 65 \<le> n \<and> n \<le> 90 then char_of (n + 32) else c)"

definition lower :: "string \<Rightarrow> string" where
  "lower s = map lower_char s"

text \<open>The point computed from the hash of the key (lines 250 to 253): \<open>h\<close> is
  \<^verbatim>\<open>hash(key)\<close>. Python's \<^verbatim>\<open>%\<close> and \<^verbatim>\<open>//\<close> on a non-negative int are \<open>mod\<close> and
  \<open>div\<close>.\<close>

definition street_point :: "int \<Rightarrow> point" where
  "street_point hk =
     (let h = \<bar>hk\<bar>;
          rx = MADRID_MIN_X + real_of_int (h mod 1000) / 1000 * (MADRID_MAX_X - MADRID_MIN_X);
          ry = MADRID_MIN_Y + real_of_int ((h div 1000) mod 1000) / 1000 * (MADRID_MAX_Y - MADRID_MIN_Y)
      in (py_round rx 6, py_round ry 6))"

text \<open>\<^verbatim>\<open>geocode_street\<close> with the module-level \<^verbatim>\<open>street_cache\<close> passed in and returned;
  \<open>hash\<close> is the interpreter's string hash.\<close>

definition geocode_street ::
  "(string \<Rightarrow> int) \<Rightarrow> string \<Rightarrow> (string \<rightharpoonup> point) \<Rightarrow> point \<times> (string \<rightharpoonup> point)" where
  "geocode_street hash street street_cache =
     (let key = lower (strip street)
      in case street_cache key of
           Some pt \<Rightarrow> (pt, street_cache)
         | None \<Rightarrow> (let pt = street_point (hash key) in (pt, street_cache(key \<mapsto> pt))))"

text \<open>The cache after the calls \<^verbatim>\<open>geocode_street(s)\<close> for \<open>s\<close> in \<open>ss\<close>, in that order, from
  the empty cache of the module as loaded. Nothing else writes the cache.\<close>

definition street_cache_after :: "(string \<Rightarrow> int) \<Rightarrow> string list \<Rightarrow> (string \<rightharpoonup> point)" where
  "street_cache_after hash ss = foldl (\<lambda>c s. snd (geocode_street hash s c)) Map.empty ss"

text \<open>Every entry of the cache is the point computed from its key.\<close>

definition cache_ok :: "(string \<Rightarrow> int) \<Rightarrow> (string \<rightharpoonup> point) \<Rightarrow> bool" where
  "cache_ok hash c = (\<forall>k pt. c k = Some pt \<longrightarrow> pt = street_point (hash k))"

subsection \<open>The route layer\<close>

text \<open>The module globals the routes use. \<open>next_client_id\<close> is assigned by
  \<^verbatim>\<open>start_sim\<close>.\<close>

record App =
  central :: "CentralSystem option"
  next_client_id :: int
  street_cache :: "string \<rightharpoonup> point"

text \<open>The JSON answers of \<^verbatim>\<open>/request\<close>: \<open>NotRunning\<close> is
  \<^verbatim>\<open>{'error': 'Sistema no esta en ejecucion'}\<close>, \<open>Created rid\<close> is \<^verbatim>\<open>{'rid': rid}\<close>.\<close>

datatype response = NotRunning | Created int

definition dict_get :: "(string \<times> string) list \<Rightarrow> string \<Rightarrow> string \<Rightarrow> string" where
  "dict_get d k dflt = (case map_of d k of None \<Rightarrow> dflt | Some v \<Rightarrow> v)"

text \<open>\<^verbatim>\<open>create_request\<close> (route \<^verbatim>\<open>/request\<close>); \<open>body\<close> is \<^verbatim>\<open>request.get_json()\<close>, an
  object of string fields or nothing.\<close>

definition create_request ::
  "(string \<Rightarrow> int) \<Rightarrow> App \<Rightarrow> (string \<times> string) list option \<Rightarrow> real \<Rightarrow> response \<times> App" where
  "create_request hash app body now =
     (case central app of
        None \<Rightarrow> (NotRunning, app)
      | Some c \<Rightarrow>
          if \<not> running c then (NotRunning, app)
          else
            (let data = (case body of None \<Rightarrow> [] | Some d \<Rightarrow> d);
                 nm = dict_get data ''name'' ''Anonimo'';
                 origin_str = dict_get data ''origin'' '''';
                 dest_str = dict_get data ''destination'' '''';
                 (org, cache1) = geocode_street hash origin_str (street_cache app);
                 (dst, cache2) = geocode_street hash dest_str cache1;
                 cl = \<lparr>client_id = next_client_id app, name = nm, client_location = org\<rparr>;
                 (rid, c') = create_client_request c cl org dst now
             in (Created rid,
                 app\<lparr>central := Some c', next_client_id := next_client_id app + 1,
                     street_cache := cache2\<rparr>)))"

text \<open>\<^verbatim>\<open>stop_sim\<close> (route \<^verbatim>\<open>/stop\<close>) in its two effects: \<^verbatim>\<open>central.stop()\<close>
  (line 447), and, after the grace period and the joins, \<^verbatim>\<open>central = None\<close> (line 451).\<close>

definition stop_sim_stop :: "App \<Rightarrow> App" where
  "stop_sim_stop app =
     (case central app of None \<Rightarrow> app | Some c \<Rightarrow> app\<lparr>central := Some (stop c)\<rparr>)"

definition stop_sim_drop :: "App \<Rightarrow> App" where
  "stop_sim_drop app = (case central app of None \<Rightarrow> app | Some c \<Rightarrow> app\<lparr>central := None\<rparr>)"

definition stop_sim :: "App \<Rightarrow> App" where
  "stop_sim app = stop_sim_drop (stop_sim_stop app)"

text \<open>The module as loaded: \<^verbatim>\<open>central = None\<close>, an empty cache.\<close>

definition App_init :: App where
  "App_init = \<lparr>central = None, next_client_id = 0, street_cache = Map.empty\<rparr>"

text \<open>The engine is stopped when there is none, or when its flag is down.\<close>

definition engine_stopped :: "App \<Rightarrow> bool" where
  "engine_stopped app = (case central app of None \<Rightarrow> True | Some c \<Rightarrow> \<not> running c)"

subsection \<open>Example scenarios\<close>

text \<open>A fleet of three taxis and one request at \<open>(0, 0)\<close>: taxis 1 and 2 are at distance
  1, taxi 2 with the better rating, and taxi 3 is at distance 5. In \<open>far_system\<close> taxi 3
  is the only one.\<close>

definition demo_fleet :: "Taxi list" where
  "demo_fleet = [new_Taxi 1 ''TAXI-101'' (0, 1), (new_Taxi 2 ''TAXI-102'' (1, 0))\<lparr>rating := 48 / 10\<rparr>,
                 new_Taxi 3 ''TAXI-103'' (3, 4)]"

definition demo_client :: Client where
  "demo_client = \<lparr>client_id = 1, name = ''Ana'', client_location = (0, 0)\<rparr>"

definition demo_system :: CentralSystem where
  "demo_system = snd (create_client_request (fleet_system demo_fleet) demo_client (0, 0) (3, 4) 0)"

definition far_system :: CentralSystem where
  "far_system = snd (create_client_request (fleet_system [new_Taxi 3 ''TAXI-103'' (3, 4)]) demo_client (0, 0) (3, 4) 0)"

subsection \<open>Invariants of an execution\<close>

text \<open>Places of a trip thread after line 210 (the fare is recorded) and after line 211
  (the request is marked completed).\<close>

fun fare_set :: "svc_pc \<Rightarrow> bool" where
  "fare_set SStart = False"
| "fare_set (SPickup p n) = False"
| "fare_set (STrip n) = False"
| "fare_set SFinTaxi = False"
| "fare_set SSetFare = False"
| "fare_set SSetCompleted = True"
| "fare_set SAppend = True"
| "fare_set SProfit = True"
| "fare_set SRating = True"
| "fare_set SSeries = True"
| "fare_set SDone = True"

fun completed_set :: "svc_pc \<Rightarrow> bool" where
  "completed_set SStart = False"
| "completed_set (SPickup p n) = False"
| "completed_set (STrip n) = False"
| "completed_set SFinTaxi = False"
| "completed_set SSetFare = False"
| "completed_set SSetCompleted = False"
| "completed_set SAppend = True"
| "completed_set SProfit = True"
| "completed_set SRating = True"
| "completed_set SSeries = True"
| "completed_set SDone = True"

text \<open>The request the adjudicator holds.\<close>

fun adj_req :: "adj_pc \<Rightarrow> int option" where
  "adj_req ANotAlive = None"
| "adj_req ATop = None"
| "adj_req AWait = None"
| "adj_req (AAcquire rid) = Some rid"
| "adj_req (AScan rid ks cands) = Some rid"
| "adj_req (AClaim rid k) = Some rid"
| "adj_req (ASetAssigned rid k) = Some rid"
| "adj_req (ASpawn rid k) = Some rid"
| "adj_req (ARelease rid b) = Some rid"
| "adj_req (ARequeue rid) = Some rid"

definition req_keys :: "CentralSystem \<Rightarrow> int set" where
  "req_keys s = fst ` set (requests_index s)"

text \<open>Every reference to a request (in the queue, in the adjudicator, in a trip
  thread, in the completed list) is a key of the index, and the keys are the ids handed
  out so far.\<close>

definition inv_index :: "CentralSystem \<Rightarrow> bool" where
  "inv_index s \<longleftrightarrow>
     distinct (map fst (requests_index s)) \<and>
     (\<forall>k. k \<in> req_keys s \<longrightarrow> k \<le> request_counter s) \<and>
     set (requests s) \<subseteq> req_keys s \<and>
     (\<forall>rid. adj_req (adjudicator_thread s) = Some rid \<longrightarrow> rid \<in> req_keys s) \<and>
     (\<forall>i < length (services s). svc_req (services s ! i) \<in> req_keys s) \<and>
     set (completed_services s) \<subseteq> req_keys s"

text \<open>What a trip thread at place \<open>pc\<close> knows of its request.\<close>

definition req_ok :: "svc_pc \<Rightarrow> RequestObj \<Rightarrow> bool" where
  "req_ok pc r \<longleftrightarrow>
     assigned_taxi r \<noteq> None \<and> (fare_set pc \<longrightarrow> fare r = trip_fare r) \<and>
     (completed_set pc \<longrightarrow> completed r)"

definition inv_thread :: "CentralSystem \<Rightarrow> bool" where
  "inv_thread s \<longleftrightarrow>
     (\<forall>i < length (services s).
        \<exists>r. req_of s (svc_req (services s ! i)) = Some r \<and> req_ok (svc_pc (services s ! i)) r)"

definition inv_spawn :: "CentralSystem \<Rightarrow> bool" where
  "inv_spawn s \<longleftrightarrow>
     (\<forall>rid k. adjudicator_thread s = ASpawn rid k \<longrightarrow>
        (\<exists>r. req_of s rid = Some r \<and> assigned_taxi r \<noteq> None))"

definition inv_completed :: "CentralSystem \<Rightarrow> bool" where
  "inv_completed s \<longleftrightarrow>
     (\<forall>rid r. req_of s rid = Some r \<and> completed r \<longrightarrow>
        assigned_taxi r \<noteq> None \<and> fare r = trip_fare r)"

definition inv_done :: "CentralSystem \<Rightarrow> bool" where
  "inv_done s \<longleftrightarrow>
     (\<forall>rid \<in> set (completed_services s). \<exists>r. req_of s rid = Some r \<and> completed r)"

definition inv_req :: "CentralSystem \<Rightarrow> bool" where
  "inv_req s \<longleftrightarrow> inv_index s \<and> inv_thread s \<and> inv_spawn s \<and> inv_completed s \<and> inv_done s"

text \<open>One taxi at \<open>(0, 0)\<close> and one request from \<open>(0, 0)\<close> to \<open>(3, 4)\<close>: the request
  is submitted, the engine started, the adjudicator matches it in eight steps and the trip
  thread runs its 48 steps to the end.\<close>

definition one_taxi :: CentralSystem where
  "one_taxi = fleet_system [new_Taxi 1 ''TAXI-101'' (0, 0)]"

definition trip_events :: "event list" where
  "trip_events = [Submit demo_client (0, 0) (3, 4) 0, Start] @ replicate 8 Adj @ replicate 48 (Svc 0 4 1)"

text \<open>What the fields of a request say of its state: pending is the test of line
  230.\<close>

definition is_pending :: "RequestObj \<Rightarrow> bool" where
  "is_pending r \<longleftrightarrow> \<not> completed r \<and> assigned_taxi r = None"

definition is_in_progress :: "RequestObj \<Rightarrow> bool" where
  "is_in_progress r \<longleftrightarrow> assigned_taxi r \<noteq> None \<and> \<not> completed r"


text \<open>The fare a trip thread computes for its request at lines 203 and 204 (its local
  \<^verbatim>\<open>fare\<close>), and the fare recorded in the request.\<close>

definition trip_fare_of :: "CentralSystem \<Rightarrow> int \<Rightarrow> real" where
  "trip_fare_of s rid = (case req_of s rid of None \<Rightarrow> 0 | Some r \<Rightarrow> trip_fare r)"

definition recorded_fare :: "CentralSystem \<Rightarrow> int \<Rightarrow> real" where
  "recorded_fare s rid = (case req_of s rid of None \<Rightarrow> 0 | Some r \<Rightarrow> fare r)"

text \<open>Places of a trip thread after the region of lines 205 to 208: the taxi is free
  again and has been paid.\<close>

fun released :: "svc_pc \<Rightarrow> bool" where
  "released SStart = False"
| "released (SPickup p n) = False"
| "released (STrip n) = False"
| "released SFinTaxi = False"
| "released SSetFare = True"
| "released SSetCompleted = True"
| "released SAppend = True"
| "released SProfit = True"
| "released SRating = True"
| "released SSeries = True"
| "released SDone = True"

text \<open>The profit of the trips in the completed list is the company profit plus the
  share of the trips that have appended (line 213) and not yet added (line 215).\<close>

definition profit_due :: "CentralSystem \<Rightarrow> Service \<Rightarrow> real" where
  "profit_due s th =
     (if svc_pc th = SProfit then trip_fare_of s (svc_req th) * SERVICE_FEE_RATE else 0)"

definition inv_profit :: "CentralSystem \<Rightarrow> bool" where
  "inv_profit s \<longleftrightarrow>
     (\<Sum>rid\<leftarrow>completed_services s. trip_fare_of s rid * SERVICE_FEE_RATE) =
       company_monthly_profit s + (\<Sum>th\<leftarrow>services s. profit_due s th)"

text \<open>The earnings of taxi \<open>k\<close> are \<open>c\<close> plus the owner's share of the trips that have
  released it.\<close>

definition paid :: "CentralSystem \<Rightarrow> int \<Rightarrow> Service \<Rightarrow> real" where
  "paid s k th =
     (if released (svc_pc th) \<and> svc_taxi th = k
      then trip_fare_of s (svc_req th) * (1 - SERVICE_FEE_RATE) else 0)"

definition inv_earnings :: "real \<Rightarrow> int \<Rightarrow> CentralSystem \<Rightarrow> bool" where
  "inv_earnings c k s \<longleftrightarrow>
     (\<forall>t. taxi_of s k = Some t \<longrightarrow> earnings t = c + (\<Sum>th\<leftarrow>services s. paid s k th))"

text \<open>The taxi the adjudicator has marked unavailable (line 178) for a trip it has not
  started yet (line 180).\<close>

fun adj_claimed :: "adj_pc \<Rightarrow> int option" where
  "adj_claimed (ASetAssigned rid k) = Some k"
| "adj_claimed (ASpawn rid k) = Some k"
| "adj_claimed ANotAlive = None"
| "adj_claimed ATop = None"
| "adj_claimed AWait = None"
| "adj_claimed (AAcquire rid) = None"
| "adj_claimed (AScan rid ks cands) = None"
| "adj_claimed (AClaim rid k) = None"
| "adj_claimed (ARelease rid b) = None"
| "adj_claimed (ARequeue rid) = None"

text \<open>A trip holds taxi \<open>k\<close> from its start until it has run lines 205 to 208, which
  set \<^verbatim>\<open>available\<close> back to \<^verbatim>\<open>True\<close>. The holders of a taxi are the trips that hold
  it, and the trip the adjudicator is about to start on it.\<close>

definition active_on :: "int \<Rightarrow> Service \<Rightarrow> bool" where
  "active_on k th \<longleftrightarrow> svc_taxi th = k \<and> \<not> released (svc_pc th)"

definition holders :: "CentralSystem \<Rightarrow> int \<Rightarrow> nat" where
  "holders s k =
     length (filter (active_on k) (services s)) +
     (if adj_claimed (adjudicator_thread s) = Some k then 1 else 0)"

definition inv_excl :: "CentralSystem \<Rightarrow> bool" where
  "inv_excl s \<longleftrightarrow>
     (\<forall>k. holders s k \<le> 1 \<and> (holders s k = 1 \<longrightarrow> (\<exists>t. taxi_of s k = Some t \<and> \<not> available t)))"

definition inv_avail :: "CentralSystem \<Rightarrow> bool" where
  "inv_avail s \<longleftrightarrow> (\<forall>k t. taxi_of s k = Some t \<and> \<not> available t \<longrightarrow> holders s k = 1)"

text \<open>The request the adjudicator holds and has not assigned, and the taxi recorded for
  a request: \<open>None\<close> for no such request, \<open>Some None\<close> for a pending one.\<close>

fun adj_pending :: "adj_pc \<Rightarrow> int list" where
  "adj_pending (AAcquire rid) = [rid]"
| "adj_pending (AScan rid ks cands) = [rid]"
| "adj_pending (AClaim rid k) = [rid]"
| "adj_pending (ASetAssigned rid k) = [rid]"
| "adj_pending (ARelease rid b) = (if b then [] else [rid])"
| "adj_pending (ARequeue rid) = [rid]"
| "adj_pending (ASpawn rid k) = []"
| "adj_pending ANotAlive = []"
| "adj_pending ATop = []"
| "adj_pending AWait = []"

definition assignment :: "CentralSystem \<Rightarrow> int \<Rightarrow> int option option" where
  "assignment s rid = map_option assigned_taxi (req_of s rid)"

text \<open>A request waits in one place only, and an assigned request has exactly one trip
  thread, or is the one whose thread the adjudicator is about to start.\<close>

definition inv_track :: "CentralSystem \<Rightarrow> bool" where
  "inv_track s \<longleftrightarrow>
     distinct (requests s @ adj_pending (adjudicator_thread s)) \<and>
     (\<forall>rid \<in> set (requests s @ adj_pending (adjudicator_thread s)). assignment s rid = Some None) \<and>
     distinct (map svc_req (services s)) \<and>
     (\<forall>rid a. assignment s rid = Some (Some a) \<longrightarrow>
        rid \<in> set (map svc_req (services s)) \<or> (\<exists>k. adjudicator_thread s = ASpawn rid k)) \<and>
     (\<forall>rid k. adjudicator_thread s = ASpawn rid k \<longrightarrow> rid \<notin> set (map svc_req (services s)))"

text \<open>The requests with a taxi recorded, the pending requests, and the submissions of
  an execution.\<close>

definition count_assigned :: "CentralSystem \<Rightarrow> nat" where
  "count_assigned s = length (filter (\<lambda>p. assigned_taxi (snd p) \<noteq> None) (requests_index s))"

definition count_pending :: "CentralSystem \<Rightarrow> nat" where
  "count_pending s = length (filter (\<lambda>p. is_pending (snd p)) (requests_index s))"

fun is_Submit :: "event \<Rightarrow> bool" where
  "is_Submit (Submit c org dst now) = True"
| "is_Submit Start = False"
| "is_Submit Stop = False"
| "is_Submit Adj = False"
| "is_Submit (Svc i sample now) = False"

definition count_submit :: "event list \<Rightarrow> nat" where
  "count_submit es = length (filter is_Submit es)"

text \<open>The taxi the adjudicator has claimed, as a list.\<close>

definition claimed_list :: "CentralSystem \<Rightarrow> int list" where
  "claimed_list s = (case adj_claimed (adjudicator_thread s) of None \<Rightarrow> [] | Some k \<Rightarrow> [k])"

text \<open>Two requests at \<open>(0, 0)\<close> for one taxi at \<open>(0, 0)\<close>. In \<open>contention_prefix\<close> the
  adjudicator matches the first request (eight steps) and fails on the second, which it
  puts back (six steps).\<close>

definition contention_prefix :: "event list" where
  "contention_prefix =
     [Submit demo_client (0, 0) (0, 1) 0,
      Submit \<lparr>client_id = 2, name = ''Luis'', client_location = (0, 0)\<rparr> (0, 0) (0, 1) 0,
      Start] @ replicate 8 Adj @ replicate 6 Adj"

text \<open>Places of a trip thread after line 213: its request is in the completed list.\<close>

fun appended :: "svc_pc \<Rightarrow> bool" where
  "appended SStart = False"
| "appended (SPickup p n) = False"
| "appended (STrip n) = False"
| "appended SFinTaxi = False"
| "appended SSetFare = False"
| "appended SSetCompleted = False"
| "appended SAppend = False"
| "appended SProfit = True"
| "appended SRating = True"
| "appended SSeries = True"
| "appended SDone = True"


text \<open>A taxi is registered under its id, a trip thread and the adjudicator at line 180
  carry the taxi recorded in their request, an unassigned request is in the queue or in
  the hands of the adjudicator, the completed list holds the requests of the threads past
  line 213, and a request marked completed has a thread past line 211.\<close>

definition inv_ids :: "CentralSystem \<Rightarrow> bool" where
  "inv_ids s \<longleftrightarrow> (\<forall>k t. taxi_of s k = Some t \<longrightarrow> taxi_id t = k)"

definition inv_ref :: "CentralSystem \<Rightarrow> bool" where
  "inv_ref s \<longleftrightarrow>
     (\<forall>i < length (services s).
        assignment s (svc_req (services s ! i)) = Some (Some (svc_taxi (services s ! i)))) \<and>
     (\<forall>rid k. adjudicator_thread s = ASpawn rid k \<longrightarrow> assignment s rid = Some (Some k))"

definition inv_wait :: "CentralSystem \<Rightarrow> bool" where
  "inv_wait s \<longleftrightarrow>
     (\<forall>rid. assignment s rid = Some None \<longrightarrow>
        rid \<in> set (requests s @ adj_pending (adjudicator_thread s)))"

definition inv_list :: "CentralSystem \<Rightarrow> bool" where
  "inv_list s \<longleftrightarrow>
     (\<forall>rid. rid \<in> set (completed_services s) \<longleftrightarrow>
        (\<exists>i < length (services s).
           svc_req (services s ! i) = rid \<and> appended (svc_pc (services s ! i))))"

definition inv_flag :: "CentralSystem \<Rightarrow> bool" where
  "inv_flag s \<longleftrightarrow>
     (\<forall>rid r. req_of s rid = Some r \<and> completed r \<longrightarrow>
        (\<exists>i < length (services s).
           svc_req (services s ! i) = rid \<and> completed_set (svc_pc (services s ! i))))"

definition inv_place :: "CentralSystem \<Rightarrow> bool" where
  "inv_place s \<longleftrightarrow> inv_ids s \<and> inv_ref s \<and> inv_wait s \<and> inv_list s \<and> inv_flag s"












text \<open>A request holds its taxi as long as its trip has not run lines 205 to 208.\<close>

definition holding :: "CentralSystem \<Rightarrow> int \<Rightarrow> bool" where
  "holding s rid \<longleftrightarrow>
     rid \<notin> set (map svc_req (filter (\<lambda>th. released (svc_pc th)) (services s)))"

text \<open>The requests in progress with the taxi each one references, and the trip threads
  with their places.\<close>

definition in_progress_refs :: "CentralSystem \<Rightarrow> (int \<times> int option) list" where
  "in_progress_refs s =
     map (\<lambda>p. (fst p, assigned_taxi (snd p))) (filter (\<lambda>p. is_in_progress (snd p)) (requests_index s))"

definition trip_places :: "CentralSystem \<Rightarrow> (int \<times> int \<times> svc_pc) list" where
  "trip_places s = map (\<lambda>th. (svc_req th, svc_taxi th, svc_pc th)) (services s)"

text \<open>After \<open>contention_prefix\<close> the first trip runs up to and including lines 205 to 208
  (42 steps), and the adjudicator matches the second request (eight steps).\<close>

definition overlap_events :: "event list" where
  "overlap_events = contention_prefix @ replicate 42 (Svc 0 4 1) @ replicate 8 Adj"

subsection \<open>The snapshot and the objects it returns\<close>

text \<open>
  \<^verbatim>\<open>get_snapshot\<close> returns a structure of dicts and lists, and what a caller can do to
  the engine through it depends on which objects that structure shares with the engine.
  For this the objects are put in a store: an address is an index in the list of the
  objects allocated so far, and a new object is appended. A value is a number, a flag, a
  string, a tuple of values (all of them immutable), or the address of an object. The
  objects are dicts (lists of items, in insertion order), lists, and the instances of
  \<^verbatim>\<open>Taxi\<close> and \<^verbatim>\<open>RequestObj\<close>, whose fields hold immutable values by their
  declared types.
\<close>

type_synonym addr = nat

datatype pyval =
    VNone
  | VBool bool
  | VInt int
  | VFloat real
  | VStr string
  | VTuple "pyval list"
  | VRef addr

datatype pyobj =
    ODict "(pyval \<times> pyval) list"
  | OList "pyval list"
  | OTaxi Taxi
  | ORequest RequestObj

type_synonym heap = "pyobj list"

definition lookup :: "heap \<Rightarrow> addr \<Rightarrow> pyobj option" where
  "lookup h a = (if a < length h then Some (h ! a) else None)"

definition alloc :: "pyobj \<Rightarrow> heap \<Rightarrow> addr \<times> heap" where
  "alloc ob h = (length h, h @ [ob])"

text \<open>The attributes of the \<^verbatim>\<open>CentralSystem\<close> instance that \<^verbatim>\<open>get_snapshot\<close> reads:
  the addresses of its containers, and its two plain values.\<close>

record CentralSystemObj =
  self_taxis :: addr
  self_requests_index :: addr
  self_completed_services :: addr
  self_time_series :: addr
  self_company_monthly_profit :: real
  self_running :: bool

definition point_val :: "point \<Rightarrow> pyval" where
  "point_val p = VTuple [VFloat (fst p), VFloat (snd p)]"

text \<open>The dict display of line 229 and that of line 230.\<close>

definition taxi_view :: "Taxi \<Rightarrow> pyobj" where
  "taxi_view t =
     ODict [(VStr ''loc'', point_val (location t)), (VStr ''rating'', VFloat (rating t)),
            (VStr ''avail'', VBool (available t)), (VStr ''earnings'', VFloat (earnings t))]"

definition request_view :: "RequestObj \<Rightarrow> pyobj" where
  "request_view r =
     ODict [(VStr ''rid'', VInt (request_id r)), (VStr ''client'', VStr (name (client r))),
            (VStr ''origin'', point_val (origin r)), (VStr ''destination'', point_val (destination r))]"

text \<open>The dict comprehension of line 229 over \<^verbatim>\<open>self.taxis.items()\<close>: a new dict per
  taxi. \<open>None\<close> is a store that is not laid out as the engine lays it out.\<close>

fun snap_taxis :: "(pyval \<times> pyval) list \<Rightarrow> heap \<Rightarrow> ((pyval \<times> pyval) list \<times> heap) option" where
  "snap_taxis [] h = Some ([], h)"
| "snap_taxis (kv # rest) h =
     (case kv of
        (VInt tid, VRef a) \<Rightarrow>
          (case lookup h a of
             Some (OTaxi t) \<Rightarrow>
               (let (b, h1) = alloc (taxi_view t) h
                in case snap_taxis rest h1 of
                     None \<Rightarrow> None
                   | Some (items, h2) \<Rightarrow> Some ((VInt tid, VRef b) # items, h2))
           | _ \<Rightarrow> None)
      | _ \<Rightarrow> None)"

text \<open>The list comprehension of line 230 over \<^verbatim>\<open>self.requests_index.values()\<close>: a
  new dict per pending request.\<close>

fun snap_pending :: "pyval list \<Rightarrow> heap \<Rightarrow> (pyval list \<times> heap) option" where
  "snap_pending [] h = Some ([], h)"
| "snap_pending (v # rest) h =
     (case v of
        VRef a \<Rightarrow>
          (case lookup h a of
             Some (ORequest r) \<Rightarrow>
               if \<not> completed r \<and> assigned_taxi r = None
               then (let (b, h1) = alloc (request_view r) h
                     in case snap_pending rest h1 of
                          None \<Rightarrow> None
                        | Some (items, h2) \<Rightarrow> Some (VRef b # items, h2))
               else snap_pending rest h
           | _ \<Rightarrow> None)
      | _ \<Rightarrow> None)"

text \<open>The dict comprehension of line 233 over \<^verbatim>\<open>self.time_series.items()\<close>:
  \<^verbatim>\<open>list(v)\<close> is a new list with the elements of \<open>v\<close>.\<close>

fun snap_series :: "(pyval \<times> pyval) list \<Rightarrow> heap \<Rightarrow> ((pyval \<times> pyval) list \<times> heap) option" where
  "snap_series [] h = Some ([], h)"
| "snap_series (kv # rest) h =
     (case kv of
        (VStr k, VRef a) \<Rightarrow>
          (case lookup h a of
             Some (OList v) \<Rightarrow>
               (let (b, h1) = alloc (OList v) h
                in case snap_series rest h1 of
                     None \<Rightarrow> None
                   | Some (items, h2) \<Rightarrow> Some ((VStr k, VRef b) # items, h2))
           | _ \<Rightarrow> None)
      | _ \<Rightarrow> None)"

text \<open>\<^verbatim>\<open>get_snapshot\<close>: the result is the address of the returned dict, with the store
  after the call.\<close>

definition get_snapshot :: "CentralSystemObj \<Rightarrow> heap \<Rightarrow> (pyval \<times> heap) option" where
  "get_snapshot self h =
     (case lookup h (self_taxis self) of
        Some (ODict titems) \<Rightarrow>
          (case snap_taxis titems h of
             None \<Rightarrow> None
           | Some (tv, h1) \<Rightarrow>
              (let (taxis_a, h2) = alloc (ODict tv) h1
               in case lookup h2 (self_requests_index self) of
                    Some (ODict ritems) \<Rightarrow>
                      (case snap_pending (map snd ritems) h2 of
                         None \<Rightarrow> None
                       | Some (pv, h3) \<Rightarrow>
                          (let (pending_a, h4) = alloc (OList pv) h3
                           in case lookup h4 (self_time_series self) of
                                Some (ODict sitems) \<Rightarrow>
                                  (case snap_series sitems h4 of
                                     None \<Rightarrow> None
                                   | Some (sv, h5) \<Rightarrow>
                                      (let (ts_copy, h6) = alloc (ODict sv) h5
                                       in case lookup h6 (self_completed_services self) of
                                            Some (OList done) \<Rightarrow>
                                              (let (res, h7) =
                                                 alloc (ODict
                                                   [(VStr ''running'', VBool (self_running self)),
                                                    (VStr ''taxis'', VRef taxis_a),
                                                    (VStr ''pending'', VRef pending_a),
                                                    (VStr ''completed'', VInt (int (length done))),
                                                    (VStr ''profit'', VFloat (self_company_monthly_profit self)),
                                                    (VStr ''timeseries'', VRef ts_copy)]) h6
                                               in Some (VRef res, h7))
                                          | _ \<Rightarrow> None))
                              | _ \<Rightarrow> None))
                  | _ \<Rightarrow> None))
      | _ \<Rightarrow> None)"

text \<open>The addresses in a value and in an object, and the addresses a caller reaches from
  a value by following them.\<close>

fun val_refs :: "pyval \<Rightarrow> addr set" where
  "val_refs (VRef a) = {a}"
| "val_refs (VTuple vs) = (\<Union>v \<in> set vs. val_refs v)"
| "val_refs VNone = {}"
| "val_refs (VBool b) = {}"
| "val_refs (VInt i) = {}"
| "val_refs (VFloat x) = {}"
| "val_refs (VStr s) = {}"

fun obj_refs :: "pyobj \<Rightarrow> addr set" where
  "obj_refs (ODict kvs) = (\<Union>kv \<in> set kvs. val_refs (fst kv) \<union> val_refs (snd kv))"
| "obj_refs (OList vs) = (\<Union>v \<in> set vs. val_refs v)"
| "obj_refs (OTaxi t) = {}"
| "obj_refs (ORequest r) = {}"

inductive_set reach :: "heap \<Rightarrow> pyval \<Rightarrow> addr set" for h :: heap and v :: pyval where
  root: "a \<in> val_refs v \<Longrightarrow> a \<in> reach h v"
| follow: "a \<in> reach h v \<Longrightarrow> a < length h \<Longrightarrow> b \<in> obj_refs (h ! a) \<Longrightarrow> b \<in> reach h v"

text \<open>The store as the engine lays it out: the four containers are where the instance
  says, the taxi dict maps ints to taxi instances, the request index maps to request
  instances, and the time series maps strings to lists of numbers.\<close>

definition is_taxi_item :: "heap \<Rightarrow> pyval \<times> pyval \<Rightarrow> bool" where
  "is_taxi_item h kv =
     (case kv of
        (VInt tid, VRef a) \<Rightarrow> (case lookup h a of Some (OTaxi t) \<Rightarrow> True | _ \<Rightarrow> False)
      | _ \<Rightarrow> False)"

definition is_request_ref :: "heap \<Rightarrow> pyval \<Rightarrow> bool" where
  "is_request_ref h v =
     (case v of
        VRef a \<Rightarrow> (case lookup h a of Some (ORequest r) \<Rightarrow> True | _ \<Rightarrow> False)
      | _ \<Rightarrow> False)"

definition is_series_item :: "heap \<Rightarrow> pyval \<times> pyval \<Rightarrow> bool" where
  "is_series_item h kv =
     (case kv of
        (VStr k, VRef a) \<Rightarrow>
          (case lookup h a of Some (OList v) \<Rightarrow> list_all (\<lambda>x. val_refs x = {}) v | _ \<Rightarrow> False)
      | _ \<Rightarrow> False)"

definition wf_engine :: "CentralSystemObj \<Rightarrow> heap \<Rightarrow> bool" where
  "wf_engine self h \<longleftrightarrow>
     (case lookup h (self_taxis self) of
        Some (ODict items) \<Rightarrow> list_all (is_taxi_item h) items | _ \<Rightarrow> False) \<and>
     (case lookup h (self_requests_index self) of
        Some (ODict items) \<Rightarrow> list_all (is_request_ref h) (map snd items) | _ \<Rightarrow> False) \<and>
     (case lookup h (self_time_series self) of
        Some (ODict items) \<Rightarrow> list_all (is_series_item h) items | _ \<Rightarrow> False) \<and>
     (case lookup h (self_completed_services self) of
        Some (OList done) \<Rightarrow> True | _ \<Rightarrow> False)"

text \<open>Every object from address \<open>n\<close> on refers to objects from \<open>n\<close> on only.\<close>

definition closed_from :: "nat \<Rightarrow> heap \<Rightarrow> bool" where
  "closed_from n h \<longleftrightarrow> (\<forall>a. n \<le> a \<and> a < length h \<longrightarrow> obj_refs (h ! a) \<subseteq> {n..<length h})"

text \<open>A store with one taxi and one pending request, as the engine lays it out.\<close>

definition demo_heap :: heap where
  "demo_heap =
     [ODict [(VInt 1, VRef 4)],
      ODict [(VInt 1, VRef 5)],
      OList [],
      ODict [(VStr ''timestamps'', VRef 6), (VStr ''completed'', VRef 7), (VStr ''profit'', VRef 8)],
      OTaxi (new_Taxi 1 ''TAXI-101'' (0, 0)),
      ORequest (new_RequestObj 1 demo_client (0, 0) (3, 4) 0),
      OList [VFloat 1], OList [VInt 0], OList [VFloat 0]]"

definition demo_self :: CentralSystemObj where
  "demo_self =
     \<lparr>self_taxis = 0, self_requests_index = 1, self_completed_services = 2,
      self_time_series = 3, self_company_monthly_profit = 0, self_running = True\<rparr>"

text \<open>The adjudicator running alone for \<open>n\<close> steps.\<close>

fun adj_run :: "nat \<Rightarrow> CentralSystem \<Rightarrow> CentralSystem option" where
  "adj_run 0 s = Some s"
| "adj_run (Suc n) s = (case adj_step s of None \<Rightarrow> None | Some s' \<Rightarrow> adj_run n s')"

section \<open>Properties\<close>

subsection \<open>Street resolution\<close>

lemma cache_ok_empty: "cache_ok hash Map.empty"
  by (simp add: cache_ok_def)

lemma cache_ok_geocode_street:
  "cache_ok hash c \<Longrightarrow> cache_ok hash (snd (geocode_street hash s c))"
  by (auto simp: cache_ok_def geocode_street_def Let_def split: option.splits)

lemma cache_ok_foldl:
  "cache_ok hash c \<Longrightarrow> cache_ok hash (foldl (\<lambda>c s. snd (geocode_street hash s c)) c ss)"
  by (induction ss arbitrary: c) (simp_all add: cache_ok_geocode_street)

lemma cache_ok_street_cache_after: "cache_ok hash (street_cache_after hash ss)"
  unfolding street_cache_after_def by (rule cache_ok_foldl [OF cache_ok_empty])

lemma geocode_street_value:
  "cache_ok hash c \<Longrightarrow> fst (geocode_street hash s c) = street_point (hash (lower (strip s)))"
  by (auto simp: cache_ok_def geocode_street_def Let_def split: option.splits)

lemma geocode_street_again:
  "geocode_street hash s (snd (geocode_street hash s c)) =
     (fst (geocode_street hash s c), snd (geocode_street hash s c))"
  by (auto simp: geocode_street_def Let_def split: option.splits)

text \<open>
  Claim C8. After any earlier calls \<open>ss\<close>, a call with \<open>s\<close> followed by a second
  call with \<open>s\<close> returns the same point twice, the second call leaving the cache as the
  first one left it; the point is a function of the hash of the stripped, lower-cased
  name alone, so a call with any \<open>s'\<close> that normalises to the same key, after any
  earlier calls \<open>ss'\<close>, returns that point too.
\<close>

theorem geocode_street_deterministic:
  "(let c = street_cache_after hash ss;
        (p1, c1) = geocode_street hash s c;
        (p2, c2) = geocode_street hash s c1
    in p2 = p1 \<and> c2 = c1 \<and> p1 = street_point (hash (lower (strip s))) \<and>
       (lower (strip s') = lower (strip s) \<longrightarrow>
          fst (geocode_street hash s' (street_cache_after hash ss')) = p1))"
proof -
  obtain p1 c1 where g1: "geocode_street hash s (street_cache_after hash ss) = (p1, c1)"
    by (cases "geocode_street hash s (street_cache_after hash ss)")
  have again: "geocode_street hash s c1 = (p1, c1)"
    using geocode_street_again [of hash s "street_cache_after hash ss"] g1 by simp
  have val: "p1 = street_point (hash (lower (strip s)))"
    using geocode_street_value [OF cache_ok_street_cache_after, of hash s ss] g1 by simp
  have other: "lower (strip s') = lower (strip s) \<Longrightarrow>
      fst (geocode_street hash s' (street_cache_after hash ss')) = p1"
    using geocode_street_value [OF cache_ok_street_cache_after, of hash s' ss'] val by simp
  show ?thesis
    using g1 again val other by (simp add: Let_def)
qed

theorem geocode_street_deterministic_witness:
  "lower (strip ''GRAN VIA'') = lower (strip ''  Gran Via '') \<and>
   fst (geocode_street (\<lambda>k. 154321 * int (length k) - 1) ''GRAN VIA''
          (street_cache_after (\<lambda>k. 154321 * int (length k) - 1) [])) =
   (4044371 / 100000, - (188011 / 50000)) \<and>
   fst (geocode_street (\<lambda>k. 154321 * int (length k) - 1) ''  Gran Via ''
          (street_cache_after (\<lambda>k. 154321 * int (length k) - 1) [''Atocha''])) =
   (4044371 / 100000, - (188011 / 50000))"
proof -
  have key: "lower (strip ''GRAN VIA'') = lower (strip ''  Gran Via '')"
    by (simp add: lower_def strip_def is_space_def lower_char_def char_of_eq_iff)
  have key': "lower (strip ''  Gran Via '') = ''gran via''"
    by (simp add: lower_def strip_def is_space_def lower_char_def char_of_eq_iff)
  have pt: "street_point 1234567 = (4044371 / 100000, - (188011 / 50000))"
    by (simp add: street_point_def MADRID_MIN_X_def MADRID_MAX_X_def MADRID_MIN_Y_def
          MADRID_MAX_Y_def py_round_def round_half_even_def Let_def)
  show ?thesis
    using geocode_street_deterministic
      [of "\<lambda>k. 154321 * int (length k) - 1" "[''Atocha'']" "''  Gran Via ''" "''GRAN VIA''" "[]"]
      key key' pt
    by (simp add: Let_def split: prod.splits)
qed

subsection \<open>Submitting a request\<close>

lemma running_notify: "running (notify s) = running s"
  by (simp add: notify_def)

lemma engine_stopped_stop_sim_stop: "engine_stopped (stop_sim_stop app)"
  by (simp add: engine_stopped_def stop_sim_stop_def stop_def running_notify split: option.splits)

lemma engine_stopped_stop_sim: "engine_stopped (stop_sim app)"
  by (simp add: engine_stopped_def stop_sim_def stop_sim_drop_def split: option.splits)

lemma create_request_stopped:
  "engine_stopped app \<Longrightarrow> create_request hash app body now = (NotRunning, app)"
  by (simp add: engine_stopped_def create_request_def split: option.splits)

text \<open>
  Claim C7. When the engine is stopped, \<^verbatim>\<open>/request\<close> answers with the not-running
  error and changes nothing: the module state, and with it the engine's request counter,
  queue and index, is the one before the call, so the same holds for every later call.
  The engine is stopped in the module as loaded (\<^verbatim>\<open>start\<close> never called), as soon as
  \<^verbatim>\<open>stop_sim\<close> has called \<^verbatim>\<open>central.stop()\<close>, and after \<^verbatim>\<open>stop_sim\<close> has returned.
  The error answer is not an answer that carries a request id.
\<close>

theorem create_request_not_running:
  "(engine_stopped app \<longrightarrow>
      create_request hash app body now = (NotRunning, app) \<and>
      (\<forall>rid. fst (create_request hash app body now) \<noteq> Created rid)) \<and>
   engine_stopped App_init \<and>
   engine_stopped (stop_sim_stop app) \<and>
   engine_stopped (stop_sim app)"
  by (simp add: create_request_stopped engine_stopped_stop_sim_stop engine_stopped_stop_sim)
     (simp add: engine_stopped_def App_init_def)

text \<open>An instance: a started engine with one taxi, stopped through \<^verbatim>\<open>/stop\<close>.\<close>

theorem create_request_not_running_witness:
  "engine_stopped
     (stop_sim \<lparr>central = Some (start (register_taxi CentralSystem_init (new_Taxi 1 ''TAXI-101'' (0, 0)))),
               next_client_id = 1000, street_cache = Map.empty\<rparr>) \<and>
   create_request (\<lambda>k. 7)
     (stop_sim \<lparr>central = Some (start (register_taxi CentralSystem_init (new_Taxi 1 ''TAXI-101'' (0, 0)))),
               next_client_id = 1000, street_cache = Map.empty\<rparr>)
     (Some [(''name'', ''Ana''), (''origin'', ''Gran Via''), (''destination'', ''Atocha'')]) 0 =
   (NotRunning, \<lparr>central = None, next_client_id = 1000, street_cache = Map.empty\<rparr>)"
  using create_request_not_running
    [of "stop_sim \<lparr>central = Some (start (register_taxi CentralSystem_init (new_Taxi 1 ''TAXI-101'' (0, 0)))),
                   next_client_id = 1000, street_cache = Map.empty\<rparr>"
        "\<lambda>k. 7" "Some [(''name'', ''Ana''), (''origin'', ''Gran Via''), (''destination'', ''Atocha'')]" 0]
  by (simp add: stop_sim_def stop_sim_drop_def stop_sim_stop_def)

text \<open>
  Claim C10. \<^verbatim>\<open>create_client_request\<close> does not look at the running flag. On every
  engine, a stopped one included, it returns the counter plus one, leaves the counter at
  that id, puts the new request at the tail of the queue and in the index as a pending
  request, wakes the adjudicator if it waits on the condition, and leaves the flag as it
  was; the id is not a key of the index when every key is at most the counter. The
  rejection is the route's: on the same stopped engine \<^verbatim>\<open>/request\<close> answers with the
  error.
\<close>

theorem create_client_request_ignores_running:
  "(case create_client_request s c org dst now of
      (rid, s') \<Rightarrow>
        rid = request_counter s + 1 \<and>
        request_counter s' = request_counter s + 1 \<and>
        requests s' = requests s @ [rid] \<and>
        map_of (requests_index s') rid = Some (new_RequestObj rid c org dst now) \<and>
        assigned_taxi (new_RequestObj rid c org dst now) = None \<and>
        \<not> completed (new_RequestObj rid c org dst now) \<and>
        (adjudicator_thread s = AWait \<longrightarrow> adjudicator_thread s' = ATop) \<and>
        running s' = running s \<and>
        ((\<forall>k \<in> fst ` set (requests_index s). k \<le> request_counter s) \<longrightarrow>
           rid \<notin> fst ` set (requests_index s))) \<and>
   (central app = Some s \<and> \<not> running s \<longrightarrow>
      fst (create_request hash app body now) = NotRunning)"
  by (auto simp add: create_client_request_def Let_def notify_def AList.update_conv'
        new_RequestObj_def create_request_def)

theorem create_client_request_ignores_running_witness:
  "\<not> running (CentralSystem_init\<lparr>adjudicator_thread := AWait\<rparr>) \<and>
   fst (create_client_request (CentralSystem_init\<lparr>adjudicator_thread := AWait\<rparr>)
          \<lparr>client_id = 1, name = ''Ana'', client_location = (0, 0)\<rparr> (0, 0) (3, 4) 0) = 1 \<and>
   requests (snd (create_client_request (CentralSystem_init\<lparr>adjudicator_thread := AWait\<rparr>)
          \<lparr>client_id = 1, name = ''Ana'', client_location = (0, 0)\<rparr> (0, 0) (3, 4) 0)) = [1] \<and>
   adjudicator_thread (snd (create_client_request (CentralSystem_init\<lparr>adjudicator_thread := AWait\<rparr>)
          \<lparr>client_id = 1, name = ''Ana'', client_location = (0, 0)\<rparr> (0, 0) (3, 4) 0)) = ATop \<and>
   fst (create_request (\<lambda>k. 7)
          \<lparr>central = Some (CentralSystem_init\<lparr>adjudicator_thread := AWait\<rparr>),
           next_client_id = 1000, street_cache = Map.empty\<rparr> None 0) = NotRunning"
  using create_client_request_ignores_running
    [of "CentralSystem_init\<lparr>adjudicator_thread := AWait\<rparr>"
        "\<lparr>client_id = 1, name = ''Ana'', client_location = (0, 0)\<rparr>" "(0, 0)" "(3, 4)" 0
        "\<lparr>central = Some (CentralSystem_init\<lparr>adjudicator_thread := AWait\<rparr>),
          next_client_id = 1000, street_cache = Map.empty\<rparr>" "\<lambda>k. 7" None]
  by (simp add: CentralSystem_init_def split: prod.splits)

subsection \<open>Matching\<close>

lemma scan_foldl:
  "foldl (\<lambda>cands kt. scan_taxi org kt cands) acc ts =
     acc @ map (\<lambda>kt. (math_dist (location (snd kt)) org, fst kt))
             (filter (\<lambda>kt. available (snd kt) \<and> math_dist (location (snd kt)) org \<le> MATCH_RADIUS) ts)"
  by (induction ts arbitrary: acc) (simp_all add: scan_taxi_def Let_def)

lemma scan_all_eq:
  "scan_all org ts =
     map (\<lambda>kt. (math_dist (location (snd kt)) org, fst kt))
       (filter (\<lambda>kt. available (snd kt) \<and> math_dist (location (snd kt)) org \<le> MATCH_RADIUS) ts)"
  by (simp add: scan_all_def scan_foldl)

lemma in_scan_all:
  "c \<in> set (scan_all org ts) \<longleftrightarrow>
     (\<exists>k t. (k, t) \<in> set ts \<and> available t \<and> math_dist (location t) org \<le> MATCH_RADIUS \<and>
            c = (math_dist (location t) org, k))"
  by (force simp: scan_all_eq)

lemma hd_sort_key_min:
  assumes "xs \<noteq> []"
  shows "hd (sort_key f xs) \<in> set xs \<and> (\<forall>y \<in> set xs. f (hd (sort_key f xs)) \<le> f y)"
proof -
  let ?ys = "sort_key f xs"
  have ne: "?ys \<noteq> []" using assms by (metis length_sort list.size(3) length_0_conv)
  then obtain z zs where ys: "?ys = z # zs" by (cases ?ys) auto
  have "sorted (map f ?ys)" by (rule sorted_sort_key)
  then have "\<forall>y \<in> set ?ys. f z \<le> f y" using ys by auto
  moreover have "set ?ys = set xs" by simp
  moreover have "z \<in> set ?ys" using ys by simp
  ultimately show ?thesis using ys by auto
qed

lemma math_dist_eq:
  "0 \<le> d \<Longrightarrow> d\<^sup>2 = (fst p - fst q)\<^sup>2 + (snd p - snd q)\<^sup>2 \<Longrightarrow> math_dist p q = d"
  unfolding math_dist_def by (metis real_sqrt_abs abs_of_nonneg)

lemma req_of_set_assigned:
  "req_of s rid = Some r \<Longrightarrow> req_of (set_assigned rid tid s) rid = Some (r\<lparr>assigned_taxi := Some tid\<rparr>)"
  by (simp add: req_of_def set_assigned_def update_req_def AList.map_of_map_entry)

lemma taxi_of_claim:
  "taxi_of s k = Some t \<Longrightarrow> taxi_of (claim_taxi k s) k = Some (t\<lparr>available := False\<rparr>)"
  by (simp add: taxi_of_def claim_taxi_def update_taxi_def AList.map_of_map_entry)

lemma dist_345: "math_dist (3, 4) (0, 0) = 5"
  by (rule math_dist_eq) (simp_all add: power2_eq_square)

lemma dist_01: "math_dist (0, 1) (0, 0) = 1" "math_dist (1, 0) (0, 0) = 1"
  by (simp_all add: math_dist_def)

lemmas demo_defs = demo_system_def far_system_def demo_fleet_def demo_client_def fleet_system_def register_taxi_def
  CentralSystem_init_def create_client_request_def new_Taxi_def new_RequestObj_def notify_def Let_def

lemma demo_taxis: "taxis demo_system = [(1, new_Taxi 1 ''TAXI-101'' (0, 1)), (2, (new_Taxi 2 ''TAXI-102'' (1, 0))\<lparr>rating := 48 / 10\<rparr>),
                 (3, new_Taxi 3 ''TAXI-103'' (3, 4))]"
  by (simp add: demo_defs)

lemma demo_req: "req_of demo_system 1 = Some (new_RequestObj 1 demo_client (0, 0) (3, 4) 0)"
  by (simp add: demo_defs req_of_def)

lemma demo_scan: "scan_all (0, 0) (taxis demo_system) = [(1, 1), (1, 2)]"
  by (simp add: demo_taxis scan_all_def scan_taxi_def new_Taxi_def dist_345 dist_01 MATCH_RADIUS_def)

lemma demo_sort: "sort_candidates (taxis demo_system) [(1, 1), (1, 2)] = [(1, 2), (1, 1)]"
  by (simp add: demo_taxis sort_candidates_def rating_of_def new_Taxi_def less_eq_prod_def)

lemma far_taxis: "taxis far_system = [(3, new_Taxi 3 ''TAXI-103'' (3, 4))]"
  by (simp add: demo_defs)

lemma far_req: "req_of far_system 1 = Some (new_RequestObj 1 demo_client (0, 0) (3, 4) 0)"
  by (simp add: demo_defs req_of_def)

text \<open>
  Claim C5. When the scan of \<^verbatim>\<open>_assign_taxi\<close> finds a candidate, the call assigns the
  request to the first candidate of the sorted list: a free taxi within the radius such
  that no free taxi within the radius is strictly nearer to the origin, and none at the
  same distance has a strictly higher rating.
\<close>

theorem assign_taxi_selects_best:
  assumes r: "req_of s rid = Some r" and dist: "distinct (map fst (taxis s))"
    and ne: "scan_all (origin r) (taxis s) \<noteq> []"
  shows "\<exists>k t s'. assign_taxi s rid = Some (True, s') \<and>
           snd (hd (sort_candidates (taxis s) (scan_all (origin r) (taxis s)))) = k \<and>
           taxi_of s k = Some t \<and> available t \<and>
           req_of s' rid = Some (r\<lparr>assigned_taxi := Some (taxi_id t)\<rparr>) \<and>
           (\<forall>k' t'. taxi_of s k' = Some t' \<and> available t' \<and>
                     math_dist (location t') (origin r) \<le> MATCH_RADIUS \<longrightarrow>
                math_dist (location t) (origin r) \<le> math_dist (location t') (origin r) \<and>
                (math_dist (location t') (origin r) = math_dist (location t) (origin r) \<longrightarrow>
                   rating t' \<le> rating t))"
proof -
  let ?cs = "scan_all (origin r) (taxis s)"
  let ?key = "\<lambda>c. (fst c, - rating_of (taxis s) (snd c))"
  let ?c = "hd (sort_candidates (taxis s) ?cs)"
  have hd: "?c \<in> set ?cs" and mn: "\<forall>y \<in> set ?cs. ?key ?c \<le> ?key y"
    using hd_sort_key_min [OF ne, of ?key] by (simp_all add: sort_candidates_def)
  from hd obtain k t where kt: "(k, t) \<in> set (taxis s)" "available t"
      "math_dist (location t) (origin r) \<le> MATCH_RADIUS"
      "?c = (math_dist (location t) (origin r), k)"
    by (auto simp: in_scan_all)
  have tk: "taxi_of s k = Some t" using kt(1) dist by (simp add: taxi_of_def)
  have rk: "rating_of (taxis s) k = rating t" using tk by (simp add: rating_of_def taxi_of_def)
  have res: "assign_taxi s rid =
      Some (True, spawn_service rid k (set_assigned rid (taxi_id t) (claim_taxi k s)))"
    using r ne tk kt(2,4) by (simp add: assign_taxi_def Let_def)
  have rq: "req_of (spawn_service rid k (set_assigned rid (taxi_id t) (claim_taxi k s))) rid =
      Some (r\<lparr>assigned_taxi := Some (taxi_id t)\<rparr>)"
    using r by (simp add: req_of_def spawn_service_def set_assigned_def update_req_def
        claim_taxi_def update_taxi_def AList.map_of_map_entry)
  have best: "math_dist (location t) (origin r) \<le> math_dist (location t') (origin r) \<and>
                (math_dist (location t') (origin r) = math_dist (location t) (origin r) \<longrightarrow>
                   rating t' \<le> rating t)"
    if h: "taxi_of s k' = Some t'" "available t'" "math_dist (location t') (origin r) \<le> MATCH_RADIUS"
    for k' t'
  proof -
    have "(k', t') \<in> set (taxis s)" using h(1) by (simp add: taxi_of_def map_of_SomeD)
    then have "(math_dist (location t') (origin r), k') \<in> set ?cs"
      using h by (auto simp: in_scan_all)
    then have "?key ?c \<le> ?key (math_dist (location t') (origin r), k')" using mn by blast
    moreover have "rating_of (taxis s) k' = rating t'"
      using h(1) by (simp add: rating_of_def taxi_of_def)
    ultimately show ?thesis using kt(4) rk by (auto simp: less_eq_prod_def)
  qed
  show ?thesis using res rq tk kt(2,4) best by (intro exI [of _ k] exI [of _ t] exI) auto
qed

theorem assign_taxi_selects_best_witness:
  "req_of demo_system 1 = Some (new_RequestObj 1 demo_client (0, 0) (3, 4) 0) \<and>
   distinct (map fst (taxis demo_system)) \<and>
   scan_all (0, 0) (taxis demo_system) = [(1, 1), (1, 2)] \<and>
   (\<exists>s'. assign_taxi demo_system 1 = Some (True, s') \<and>
      req_of s' 1 = Some ((new_RequestObj 1 demo_client (0, 0) (3, 4) 0)\<lparr>assigned_taxi := Some 2\<rparr>))"
proof -
  have d: "distinct (map fst (taxis demo_system))" by (simp add: demo_taxis)
  have o: "origin (new_RequestObj 1 demo_client (0, 0) (3, 4) 0) = (0, 0)" by (simp add: new_RequestObj_def)
  have ne: "scan_all (origin (new_RequestObj 1 demo_client (0, 0) (3, 4) 0)) (taxis demo_system) \<noteq> []"
    by (simp add: o demo_scan)
  have t2: "taxi_of demo_system 2 = Some ((new_Taxi 2 ''TAXI-102'' (1, 0))\<lparr>rating := 48 / 10\<rparr>)"
    by (simp add: taxi_of_def demo_taxis)
  show ?thesis
    using assign_taxi_selects_best [OF demo_req d ne] d demo_req t2
    by (auto simp: o demo_scan demo_sort new_Taxi_def)
qed

text \<open>
  Claim C4. When \<^verbatim>\<open>_assign_taxi\<close> matches a request, the taxi it marks and records
  was free and at most \<open>MATCH_RADIUS\<close> away from the origin in the state the call
  scanned; when every free taxi is farther than the radius, the call reports no match
  and changes nothing.
\<close>

theorem assign_taxi_within_radius:
  assumes r: "req_of s rid = Some r" and dist: "distinct (map fst (taxis s))"
  shows "(\<forall>s'. assign_taxi s rid = Some (True, s') \<longrightarrow>
            (\<exists>k t. taxi_of s k = Some t \<and> available t \<and>
                   math_dist (location t) (origin r) \<le> MATCH_RADIUS \<and>
                   req_of s' rid = Some (r\<lparr>assigned_taxi := Some (taxi_id t)\<rparr>) \<and>
                   taxi_of s' k = Some (t\<lparr>available := False\<rparr>))) \<and>
         ((\<forall>k t. taxi_of s k = Some t \<and> available t \<longrightarrow>
                  MATCH_RADIUS < math_dist (location t) (origin r)) \<longrightarrow>
            assign_taxi s rid = Some (False, s))"
proof (intro conjI allI impI)
  fix s' assume a: "assign_taxi s rid = Some (True, s')"
  let ?cs = "scan_all (origin r) (taxis s)"
  let ?key = "\<lambda>c. (fst c, - rating_of (taxis s) (snd c))"
  let ?c = "hd (sort_candidates (taxis s) ?cs)"
  have ne: "?cs \<noteq> []" using a r by (auto simp: assign_taxi_def)
  have hd: "?c \<in> set ?cs"
    using hd_sort_key_min [OF ne, of ?key] by (simp_all add: sort_candidates_def)
  then obtain k t where kt: "(k, t) \<in> set (taxis s)" "available t"
      "math_dist (location t) (origin r) \<le> MATCH_RADIUS"
      "?c = (math_dist (location t) (origin r), k)"
    by (auto simp: in_scan_all)
  have tk: "taxi_of s k = Some t" using kt(1) dist by (simp add: taxi_of_def)
  have res: "s' = spawn_service rid k (set_assigned rid (taxi_id t) (claim_taxi k s))"
    using a r ne tk kt(2,4) by (simp add: assign_taxi_def Let_def)
  have rq: "req_of s' rid = Some (r\<lparr>assigned_taxi := Some (taxi_id t)\<rparr>)"
    using r unfolding res by (simp add: req_of_def spawn_service_def set_assigned_def update_req_def
        claim_taxi_def update_taxi_def AList.map_of_map_entry)
  have tq: "taxi_of s' k = Some (t\<lparr>available := False\<rparr>)"
    using tk unfolding res by (simp add: taxi_of_def spawn_service_def set_assigned_def update_req_def
        claim_taxi_def update_taxi_def AList.map_of_map_entry)
  show "\<exists>k t. taxi_of s k = Some t \<and> available t \<and>
                   math_dist (location t) (origin r) \<le> MATCH_RADIUS \<and>
                   req_of s' rid = Some (r\<lparr>assigned_taxi := Some (taxi_id t)\<rparr>) \<and>
                   taxi_of s' k = Some (t\<lparr>available := False\<rparr>)"
    using tk kt rq tq by blast
next
  assume far: "\<forall>k t. taxi_of s k = Some t \<and> available t \<longrightarrow>
                  MATCH_RADIUS < math_dist (location t) (origin r)"
  have "scan_all (origin r) (taxis s) = []"
  proof (rule ccontr)
    assume "scan_all (origin r) (taxis s) \<noteq> []"
    then obtain c where "c \<in> set (scan_all (origin r) (taxis s))"
      by (meson last_in_set)
    then obtain k t where kt: "(k, t) \<in> set (taxis s)" "available t"
      "math_dist (location t) (origin r) \<le> MATCH_RADIUS"
      by (auto simp: in_scan_all)
    have "taxi_of s k = Some t" using kt(1) dist by (simp add: taxi_of_def)
    with far kt show False by fastforce
  qed
  then show "assign_taxi s rid = Some (False, s)" using r by (simp add: assign_taxi_def)
qed

theorem assign_taxi_within_radius_witness:
  "(\<exists>s' k t. assign_taxi demo_system 1 = Some (True, s') \<and>
       taxi_of demo_system k = Some t \<and> math_dist (location t) (0, 0) \<le> MATCH_RADIUS \<and>
       req_of s' 1 = Some ((new_RequestObj 1 demo_client (0, 0) (3, 4) 0)\<lparr>assigned_taxi := Some (taxi_id t)\<rparr>)) \<and>
   taxis far_system = [(3, new_Taxi 3 ''TAXI-103'' (3, 4))] \<and>
   MATCH_RADIUS < math_dist (3, 4) (0, 0) \<and>
   assign_taxi far_system 1 = Some (False, far_system)"
proof -
  have d: "distinct (map fst (taxis demo_system))" by (simp add: demo_taxis)
  have d': "distinct (map fst (taxis far_system))" by (simp add: far_taxis)
  have o: "origin (new_RequestObj 1 demo_client (0, 0) (3, 4) 0) = (0, 0)" by (simp add: new_RequestObj_def)
  have t2: "taxi_of demo_system 2 = Some ((new_Taxi 2 ''TAXI-102'' (1, 0))\<lparr>rating := 48 / 10\<rparr>)"
    by (simp add: taxi_of_def demo_taxis)
  have yes: "\<exists>s'. assign_taxi demo_system 1 = Some (True, s')"
    using demo_req t2 by (simp add: assign_taxi_def o demo_scan demo_sort new_Taxi_def)
  have far: "\<forall>k t. taxi_of far_system k = Some t \<and> available t \<longrightarrow>
      MATCH_RADIUS < math_dist (location t) (origin (new_RequestObj 1 demo_client (0, 0) (3, 4) 0))"
    by (auto simp: o taxi_of_def far_taxis new_Taxi_def dist_345 MATCH_RADIUS_def split: if_splits)
  show ?thesis
    using assign_taxi_within_radius [OF demo_req d] assign_taxi_within_radius [OF far_req d'] yes far
    by (simp add: o far_taxis dist_345 MATCH_RADIUS_def) blast
qed

subsection \<open>The steps, case by case\<close>

lemma adj_step_cases [consumes 1, case_names Exit Wait Pop Wake Timeout Acquire ScanOne ScanNone ScanChoose ClaimFail Claim SetAssigned Spawn Release Requeue]:
  assumes "adj_step s = Some s'"
  obtains
    (Exit) "adjudicator_thread s = ATop" "\<not> running s" "s' = s\<lparr>adjudicator_thread := ANotAlive\<rparr>"
  | (Wait) "adjudicator_thread s = ATop" "running s" "requests s = []" "s' = s\<lparr>adjudicator_thread := AWait\<rparr>"
  | (Pop) rid q where "adjudicator_thread s = ATop" "running s" "requests s = rid # q"
      "s' = s\<lparr>requests := q, adjudicator_thread := AAcquire rid\<rparr>"
  | (Wake) "adjudicator_thread s = AWait" "s' = s\<lparr>adjudicator_thread := ATop\<rparr>"
  | (Timeout) rid where "adjudicator_thread s = AAcquire rid" "binary_semaphore s = 0"
      "s' = s\<lparr>requests := requests s @ [rid], adjudicator_thread := ATop\<rparr>"
  | (Acquire) rid where "adjudicator_thread s = AAcquire rid" "binary_semaphore s \<noteq> 0"
      "s' = s\<lparr>binary_semaphore := binary_semaphore s - 1,
                adjudicator_thread := AScan rid (map fst (taxis s)) []\<rparr>"
  | (ScanOne) rid k ks cands r t where "adjudicator_thread s = AScan rid (k # ks) cands"
      "req_of s rid = Some r" "taxi_of s k = Some t"
      "s' = s\<lparr>adjudicator_thread := AScan rid ks (scan_taxi (origin r) (k, t) cands)\<rparr>"
  | (ScanNone) rid r where "adjudicator_thread s = AScan rid [] []" "req_of s rid = Some r"
      "s' = s\<lparr>adjudicator_thread := ARelease rid False\<rparr>"
  | (ScanChoose) rid cands r where "adjudicator_thread s = AScan rid [] cands" "cands \<noteq> []"
      "req_of s rid = Some r"
      "s' = s\<lparr>adjudicator_thread := AClaim rid (snd (hd (sort_candidates (taxis s) cands)))\<rparr>"
  | (ClaimFail) rid k t where "adjudicator_thread s = AClaim rid k" "taxi_of s k = Some t"
      "\<not> available t" "s' = s\<lparr>adjudicator_thread := ARelease rid False\<rparr>"
  | (Claim) rid k t where "adjudicator_thread s = AClaim rid k" "taxi_of s k = Some t"
      "available t" "s' = (claim_taxi k s)\<lparr>adjudicator_thread := ASetAssigned rid k\<rparr>"
  | (SetAssigned) rid k t where "adjudicator_thread s = ASetAssigned rid k" "taxi_of s k = Some t"
      "s' = (set_assigned rid (taxi_id t) s)\<lparr>adjudicator_thread := ASpawn rid k\<rparr>"
  | (Spawn) rid k where "adjudicator_thread s = ASpawn rid k"
      "s' = (spawn_service rid k s)\<lparr>adjudicator_thread := ARelease rid True\<rparr>"
  | (Release) rid b where "adjudicator_thread s = ARelease rid b"
      "s' = s\<lparr>binary_semaphore := binary_semaphore s + 1,
                adjudicator_thread := (if b then ATop else ARequeue rid)\<rparr>"
  | (Requeue) rid where "adjudicator_thread s = ARequeue rid"
      "s' = s\<lparr>requests := requests s @ [rid], adjudicator_thread := ATop\<rparr>"
proof (cases "adjudicator_thread s")
  case ANotAlive
  then show ?thesis using assms by (simp add: adj_step_def)
next
  case ATop
  then show ?thesis using assms Exit Wait Pop
    by (auto simp add: adj_step_def split: if_splits list.splits)
next
  case AWait
  then show ?thesis using assms Wake by (simp add: adj_step_def)
next
  case (AAcquire rid)
  then show ?thesis using assms Timeout Acquire
    by (auto simp add: adj_step_def split: if_splits)
next
  case (AScan rid ks cands)
  then show ?thesis using assms ScanOne ScanNone ScanChoose
    by (auto simp add: adj_step_def split: if_splits list.splits option.splits)
next
  case (AClaim rid k)
  then show ?thesis using assms ClaimFail Claim
    by (auto simp add: adj_step_def split: if_splits option.splits)
next
  case (ASetAssigned rid k)
  then show ?thesis using assms SetAssigned
    by (auto simp add: adj_step_def split: option.splits)
next
  case (ASpawn rid k)
  then show ?thesis using assms Spawn by (simp add: adj_step_def)
next
  case (ARelease rid b)
  then show ?thesis using assms Release by (simp add: adj_step_def)
next
  case (ARequeue rid)
  then show ?thesis using assms Requeue by (simp add: adj_step_def)
qed

lemma svc_step_cases [consumes 1, case_names Begin Pickup Trip FinTaxi SetFare SetCompleted Append Profit Rating Series]:
  assumes "svc_step i sample now s = Some s'"
  obtains
    (Begin) r t where "i < length (services s)" "req_of s (svc_req (services s ! i)) = Some r"
      "taxi_of s (svc_taxi (services s ! i)) = Some t" "svc_pc (services s ! i) = SStart"
      "s' = set_pc i (SPickup (location t) 0) s"
  | (Pickup) r t p n where "i < length (services s)" "req_of s (svc_req (services s ! i)) = Some r"
      "taxi_of s (svc_taxi (services s ! i)) = Some t" "svc_pc (services s ! i) = SPickup p n"
      "s' = set_pc i (if n + 1 < 15 then SPickup p (n + 1) else STrip 0)
              (update_taxi (svc_taxi (services s ! i))
                 (\<lambda>t. t\<lparr>location := move_smooth_pos p (origin r) 15 n\<rparr>) s)"
  | (Trip) r t n where "i < length (services s)" "req_of s (svc_req (services s ! i)) = Some r"
      "taxi_of s (svc_taxi (services s ! i)) = Some t" "svc_pc (services s ! i) = STrip n"
      "s' = set_pc i (if n + 1 < 25 then STrip (n + 1) else SFinTaxi)
              (update_taxi (svc_taxi (services s ! i))
                 (\<lambda>t. t\<lparr>location := move_smooth_pos (origin r) (destination r) 25 n\<rparr>) s)"
  | (FinTaxi) r t where "i < length (services s)" "req_of s (svc_req (services s ! i)) = Some r"
      "taxi_of s (svc_taxi (services s ! i)) = Some t" "svc_pc (services s ! i) = SFinTaxi"
      "s' = set_pc i SSetFare
              (update_taxi (svc_taxi (services s ! i))
                 (\<lambda>t. t\<lparr>location := destination r, available := True,
                         earnings := earnings t + trip_fare r * (1 - SERVICE_FEE_RATE)\<rparr>) s)"
  | (SetFare) r t where "i < length (services s)" "req_of s (svc_req (services s ! i)) = Some r"
      "taxi_of s (svc_taxi (services s ! i)) = Some t" "svc_pc (services s ! i) = SSetFare"
      "s' = set_pc i SSetCompleted
              (update_req (svc_req (services s ! i)) (\<lambda>r. r\<lparr>fare := trip_fare r\<rparr>) s)"
  | (SetCompleted) r t where "i < length (services s)" "req_of s (svc_req (services s ! i)) = Some r"
      "taxi_of s (svc_taxi (services s ! i)) = Some t" "svc_pc (services s ! i) = SSetCompleted"
      "s' = set_pc i SAppend
              (update_req (svc_req (services s ! i)) (\<lambda>r. r\<lparr>completed := True\<rparr>) s)"
  | (Append) r t where "i < length (services s)" "req_of s (svc_req (services s ! i)) = Some r"
      "taxi_of s (svc_taxi (services s ! i)) = Some t" "svc_pc (services s ! i) = SAppend"
      "s' = set_pc i SProfit
              (s\<lparr>completed_services := completed_services s @ [svc_req (services s ! i)]\<rparr>)"
  | (Profit) r t where "i < length (services s)" "req_of s (svc_req (services s ! i)) = Some r"
      "taxi_of s (svc_taxi (services s ! i)) = Some t" "svc_pc (services s ! i) = SProfit"
      "s' = set_pc i SRating
              (s\<lparr>company_monthly_profit :=
                   company_monthly_profit s + trip_fare r * SERVICE_FEE_RATE\<rparr>)"
  | (Rating) r t where "i < length (services s)" "req_of s (svc_req (services s ! i)) = Some r"
      "taxi_of s (svc_taxi (services s ! i)) = Some t" "svc_pc (services s ! i) = SRating"
      "37 / 10 \<le> sample" "sample \<le> 5"
      "s' = set_pc i SSeries
              (update_taxi (svc_taxi (services s ! i))
                 (\<lambda>t. t\<lparr>rating := py_round ((rating t + sample) / 2) 2\<rparr>) s)"
  | (Series) r t where "i < length (services s)" "req_of s (svc_req (services s ! i)) = Some r"
      "taxi_of s (svc_taxi (services s ! i)) = Some t" "svc_pc (services s ! i) = SSeries"
      "s' = set_pc i SDone
              (s\<lparr>ts_timestamps := ts_timestamps s @ [now],
                 ts_completed := ts_completed s @ [length (completed_services s)],
                 ts_profit := ts_profit s @ [company_monthly_profit s]\<rparr>)"
proof -
  have len: "i < length (services s)"
    using assms by (simp add: svc_step_def split: if_splits)
  obtain r where r: "req_of s (svc_req (services s ! i)) = Some r"
    using assms len by (cases "req_of s (svc_req (services s ! i))") (simp_all add: svc_step_def Let_def)
  obtain t where t: "taxi_of s (svc_taxi (services s ! i)) = Some t"
    using assms len r by (cases "taxi_of s (svc_taxi (services s ! i))") (simp_all add: svc_step_def Let_def)
  have eq: "(case svc_pc (services s ! i) of
                      SStart \<Rightarrow> Some (set_pc i (SPickup (location t) 0) s)
                    | SPickup p n \<Rightarrow>
                        Some (set_pc i (if n + 1 < 15 then SPickup p (n + 1) else STrip 0)
                               (update_taxi (svc_taxi (services s ! i))
                                  (\<lambda>t. t\<lparr>location := move_smooth_pos p (origin r) 15 n\<rparr>) s))
                    | STrip n \<Rightarrow>
                        Some (set_pc i (if n + 1 < 25 then STrip (n + 1) else SFinTaxi)
                               (update_taxi (svc_taxi (services s ! i))
                                  (\<lambda>t. t\<lparr>location := move_smooth_pos (origin r) (destination r) 25 n\<rparr>) s))
                    | SFinTaxi \<Rightarrow>
                        Some (set_pc i SSetFare
                               (update_taxi (svc_taxi (services s ! i))
                                  (\<lambda>t. t\<lparr>location := destination r, available := True,
                                          earnings := earnings t + trip_fare r * (1 - SERVICE_FEE_RATE)\<rparr>) s))
                    | SSetFare \<Rightarrow>
                        Some (set_pc i SSetCompleted (update_req (svc_req (services s ! i)) (\<lambda>r. r\<lparr>fare := trip_fare r\<rparr>) s))
                    | SSetCompleted \<Rightarrow>
                        Some (set_pc i SAppend (update_req (svc_req (services s ! i)) (\<lambda>r. r\<lparr>completed := True\<rparr>) s))
                    | SAppend \<Rightarrow>
                        Some (set_pc i SProfit (s\<lparr>completed_services := completed_services s @ [svc_req (services s ! i)]\<rparr>))
                    | SProfit \<Rightarrow>
                        Some (set_pc i SRating
                               (s\<lparr>company_monthly_profit :=
                                    company_monthly_profit s + trip_fare r * SERVICE_FEE_RATE\<rparr>))
                    | SRating \<Rightarrow>
                        if 37 / 10 \<le> sample \<and> sample \<le> 5
                        then Some (set_pc i SSeries
                               (update_taxi (svc_taxi (services s ! i))
                                  (\<lambda>t. t\<lparr>rating := py_round ((rating t + sample) / 2) 2\<rparr>) s))
                        else None
                    | SSeries \<Rightarrow>
                        Some (set_pc i SDone
                               (s\<lparr>ts_timestamps := ts_timestamps s @ [now],
                                  ts_completed := ts_completed s @ [length (completed_services s)],
                                  ts_profit := ts_profit s @ [company_monthly_profit s]\<rparr>))
                    | SDone \<Rightarrow> None) = Some s'"
    using assms len r t by (simp add: svc_step_def Let_def)
  show ?thesis
  proof (cases "svc_pc (services s ! i)")
    case SStart
    then show ?thesis using eq Begin [OF len r t] by simp
  next
    case (SPickup p n)
    then show ?thesis using eq Pickup [OF len r t] by simp
  next
    case (STrip n)
    then show ?thesis using eq Trip [OF len r t] by simp
  next
    case SFinTaxi
    then show ?thesis using eq FinTaxi [OF len r t] by simp
  next
    case SSetFare
    then show ?thesis using eq SetFare [OF len r t] by simp
  next
    case SSetCompleted
    then show ?thesis using eq SetCompleted [OF len r t] by simp
  next
    case SAppend
    then show ?thesis using eq Append [OF len r t] by simp
  next
    case SProfit
    then show ?thesis using eq Profit [OF len r t] by simp
  next
    case SRating
    then show ?thesis using eq Rating [OF len r t] by (simp split: if_splits)
  next
    case SSeries
    then show ?thesis using eq Series [OF len r t] by simp
  next
    case SDone
    then show ?thesis using eq by simp
  qed
qed

subsection \<open>References to requests stay valid\<close>

lemma step_cases [consumes 1, case_names Submit Start Stop Adj Svc]:
  assumes "step e s = Some s'"
  obtains
    (Submit) c org dst now where "e = Submit c org dst now" "s' = snd (create_client_request s c org dst now)"
  | (Start) "e = Start" "s' = start s"
  | (Stop) "e = Stop" "s' = stop s"
  | (Adj) "e = Adj" "adj_step s = Some s'"
  | (Svc) i sample now where "e = Svc i sample now" "svc_step i sample now s = Some s'"
  using assms by (cases e) auto

lemma map_fst_map_entry: "map fst (AList.map_entry k f xs) = map fst xs"
  by (induction xs) auto

lemmas op_defs = update_taxi_def update_req_def set_pc_def claim_taxi_def set_assigned_def
  spawn_service_def notify_def start_def stop_def create_client_request_def Let_def

lemma req_keys_simps:
  "req_keys (update_taxi k f s) = req_keys s"
  "req_keys (update_req rid g s) = req_keys s"
  "req_keys (set_pc i pc s) = req_keys s"
  "req_keys (spawn_service rid k s) = req_keys s"
  "req_keys (notify s) = req_keys s"
  "req_keys (start s) = req_keys s"
  "req_keys (stop s) = req_keys s"
  "req_keys (snd (create_client_request s c org dst now)) = insert (request_counter s + 1) (req_keys s)"
  by (auto simp add: req_keys_def op_defs AList.dom_map_entry AList.dom_update)

lemma inv_index_adj:
  assumes "inv_index s" "adj_step s = Some s'"
  shows "inv_index s'"
  using assms(2,1)
  by (cases rule: adj_step_cases)
     (auto simp add: inv_index_def req_keys_def op_defs map_fst_map_entry nth_append AList.dom_map_entry)

lemma inv_index_svc:
  assumes "inv_index s" "svc_step i sample now s = Some s'"
  shows "inv_index s'"
  using assms(2,1)
  by (cases rule: svc_step_cases)
     (auto simp add: inv_index_def req_keys_def op_defs map_fst_map_entry nth_list_update AList.dom_map_entry)

lemma inv_index_submit:
  assumes "inv_index s"
  shows "inv_index (snd (create_client_request s c org dst now))"
proof -
  have fresh: "request_counter s + 1 \<notin> fst ` set (requests_index s)"
    using assms by (fastforce simp: inv_index_def req_keys_def)
  show ?thesis
    using assms fresh
    by (auto simp add: inv_index_def req_keys_def op_defs AList.distinct_update AList.dom_update)
qed

lemma inv_index_step:
  assumes "inv_index s" "step e s = Some s'"
  shows "inv_index s'"
  using assms(2)
proof (cases rule: step_cases)
  case (Submit c org dst now)
  then show ?thesis using inv_index_submit [OF assms(1)] by simp
next
  case Start
  then show ?thesis using assms(1) by (auto simp add: inv_index_def req_keys_def op_defs)
next
  case Stop
  then show ?thesis using assms(1) by (auto simp add: inv_index_def req_keys_def op_defs)
next
  case Adj
  then show ?thesis using inv_index_adj [OF assms(1)] by simp
next
  case (Svc i sample now)
  then show ?thesis using inv_index_svc [OF assms(1)] by simp
qed

subsection \<open>The life cycle of a request\<close>

lemma trip_fare_simps [simp]:
  "trip_fare (r\<lparr>fare := x\<rparr>) = trip_fare r"
  "trip_fare (r\<lparr>completed := b\<rparr>) = trip_fare r"
  "trip_fare (r\<lparr>assigned_taxi := a\<rparr>) = trip_fare r"
  by (simp_all add: trip_fare_def)

lemma req_of_None_iff: "req_of s rid = None \<longleftrightarrow> rid \<notin> req_keys s"
  by (simp add: req_of_def req_keys_def map_of_eq_None_iff)

lemma inv_req_adj:
  assumes "inv_req s" "adj_step s = Some s'"
  shows "inv_thread s' \<and> inv_spawn s' \<and> inv_completed s' \<and> inv_done s'"
  using assms(2,1)
proof (cases rule: adj_step_cases)
  case (SetAssigned rid k t)
  have "rid \<in> req_keys s" using assms(1) SetAssigned(1) by (simp add: inv_req_def inv_index_def)
  then obtain r where r: "req_of s rid = Some r" by (cases "req_of s rid") (auto simp: req_of_None_iff)
  show ?thesis
    using assms(1) r unfolding SetAssigned(3)
    by (auto simp add: inv_req_def inv_thread_def inv_spawn_def inv_completed_def inv_done_def
          req_ok_def req_of_def op_defs AList.map_of_map_entry split: option.splits)
next
  case (Spawn rid k)
  then show ?thesis
    using assms(1)
    by (auto simp add: inv_req_def inv_thread_def inv_spawn_def inv_completed_def inv_done_def
          req_ok_def req_of_def op_defs nth_append)
qed (use assms(1) in \<open>auto simp add: inv_req_def inv_thread_def inv_spawn_def inv_completed_def inv_done_def
          req_of_def op_defs\<close>)

lemmas inv_req_defs = inv_req_def inv_thread_def inv_spawn_def inv_completed_def inv_done_def

lemma inv_req_svc:
  assumes "inv_req s" "svc_step i sample now s = Some s'"
  shows "inv_thread s' \<and> inv_spawn s' \<and> inv_completed s' \<and> inv_done s'"
  using assms(2,1)
proof (cases rule: svc_step_cases)
  case (SetFare r t)
  have ok: "req_ok SSetFare r" using assms(1) SetFare(1,2,4) by (auto simp: inv_req_defs)
  show ?thesis
    using assms(1) ok SetFare(1,2,4) unfolding SetFare(5)
    by (auto simp add: inv_req_defs req_ok_def req_of_def op_defs AList.map_of_map_entry
          nth_list_update split: option.splits)
next
  case (SetCompleted r t)
  have ok: "req_ok SSetCompleted r" using assms(1) SetCompleted(1,2,4) by (auto simp: inv_req_defs)
  show ?thesis
    using assms(1) ok SetCompleted(1,2,4) unfolding SetCompleted(5)
    by (auto simp add: inv_req_defs req_ok_def req_of_def op_defs AList.map_of_map_entry
          nth_list_update split: option.splits)
next
  case (Append r t)
  have ok: "req_ok SAppend r" using assms(1) Append(1,2,4) by (auto simp: inv_req_defs)
  show ?thesis
    using assms(1) ok Append(1,2,4) unfolding Append(5)
    by (auto simp add: inv_req_defs req_ok_def req_of_def op_defs nth_list_update)
next
  case (Begin r t)
  have ok: "req_ok SStart r" using assms(1) Begin(1,2,4) by (auto simp: inv_req_defs)
  show ?thesis
    using assms(1) ok Begin(1,2,4) unfolding Begin(5)
    by (auto simp add: inv_req_defs req_ok_def req_of_def op_defs nth_list_update)
next
  case (Pickup r t p n)
  have ok: "req_ok (SPickup p n) r" using assms(1) Pickup(1,2,4) by (auto simp: inv_req_defs)
  show ?thesis
    using assms(1) ok Pickup(1,2,4) unfolding Pickup(5)
    by (auto simp add: inv_req_defs req_ok_def req_of_def op_defs nth_list_update)
next
  case (Trip r t n)
  have ok: "req_ok (STrip n) r" using assms(1) Trip(1,2,4) by (auto simp: inv_req_defs)
  show ?thesis
    using assms(1) ok Trip(1,2,4) unfolding Trip(5)
    by (auto simp add: inv_req_defs req_ok_def req_of_def op_defs nth_list_update)
next
  case (FinTaxi r t)
  have ok: "req_ok SFinTaxi r" using assms(1) FinTaxi(1,2,4) by (auto simp: inv_req_defs)
  show ?thesis
    using assms(1) ok FinTaxi(1,2,4) unfolding FinTaxi(5)
    by (auto simp add: inv_req_defs req_ok_def req_of_def op_defs nth_list_update)
next
  case (Profit r t)
  have ok: "req_ok SProfit r" using assms(1) Profit(1,2,4) by (auto simp: inv_req_defs)
  show ?thesis
    using assms(1) ok Profit(1,2,4) unfolding Profit(5)
    by (auto simp add: inv_req_defs req_ok_def req_of_def op_defs nth_list_update)
next
  case (Rating r t)
  have ok: "req_ok SRating r" using assms(1) Rating(1,2,4) by (auto simp: inv_req_defs)
  show ?thesis
    using assms(1) ok Rating(1,2,4) unfolding Rating(7)
    by (auto simp add: inv_req_defs req_ok_def req_of_def op_defs nth_list_update)
next
  case (Series r t)
  have ok: "req_ok SSeries r" using assms(1) Series(1,2,4) by (auto simp: inv_req_defs)
  show ?thesis
    using assms(1) ok Series(1,2,4) unfolding Series(5)
    by (auto simp add: inv_req_defs req_ok_def req_of_def op_defs nth_list_update)
qed

lemma inv_req_submit:
  assumes "inv_req s"
  shows "inv_thread (snd (create_client_request s c org dst now)) \<and>
         inv_spawn (snd (create_client_request s c org dst now)) \<and>
         inv_completed (snd (create_client_request s c org dst now)) \<and>
         inv_done (snd (create_client_request s c org dst now))"
proof -
  have fresh: "request_counter s + 1 \<notin> req_keys s"
    using assms by (fastforce simp: inv_req_def inv_index_def)
  have th: "\<forall>i < length (services s). svc_req (services s ! i) \<noteq> request_counter s + 1"
    using assms fresh by (auto simp: inv_req_def inv_index_def)
  have sp: "\<forall>rid k. adjudicator_thread s = ASpawn rid k \<longrightarrow> rid \<noteq> request_counter s + 1"
    using assms fresh by (auto simp: inv_req_def inv_index_def)
  have dn: "\<forall>rid \<in> set (completed_services s). rid \<noteq> request_counter s + 1"
    using assms fresh by (auto simp: inv_req_def inv_index_def)
  show ?thesis
    using assms th sp dn
    by (auto simp add: inv_req_defs req_of_def op_defs AList.update_conv' new_RequestObj_def)
qed

lemma inv_req_step:
  assumes "inv_req s" "step e s = Some s'"
  shows "inv_req s'"
proof -
  have ix: "inv_index s'" using assms inv_index_step by (auto simp: inv_req_def)
  have "inv_thread s' \<and> inv_spawn s' \<and> inv_completed s' \<and> inv_done s'"
    using assms(2)
  proof (cases rule: step_cases)
    case (Submit c org dst now)
    then show ?thesis using inv_req_submit [OF assms(1)] by simp
  next
    case Start
    then show ?thesis using assms(1) by (auto simp add: inv_req_defs req_of_def op_defs)
  next
    case Stop
    then show ?thesis using assms(1) by (auto simp add: inv_req_defs req_of_def op_defs)
  next
    case Adj
    then show ?thesis using inv_req_adj [OF assms(1)] by simp
  next
    case (Svc i sample now)
    then show ?thesis using inv_req_svc [OF assms(1)] by simp
  qed
  with ix show ?thesis by (simp add: inv_req_def)
qed

lemma run_invariant:
  assumes "\<And>e s s'. P s \<Longrightarrow> step e s = Some s' \<Longrightarrow> P s'"
  shows "P s \<Longrightarrow> run es s = Some s' \<Longrightarrow> P s'"
proof (induction es arbitrary: s)
  case Nil
  then show ?case by simp
next
  case (Cons e es)
  then show ?case using assms by (auto split: option.splits)
qed

lemma taxis_fleet_foldl:
  "requests_index (foldl register_taxi s fleet) = requests_index s \<and>
   requests (foldl register_taxi s fleet) = requests s \<and>
   services (foldl register_taxi s fleet) = services s \<and>
   completed_services (foldl register_taxi s fleet) = completed_services s \<and>
   adjudicator_thread (foldl register_taxi s fleet) = adjudicator_thread s \<and>
   company_monthly_profit (foldl register_taxi s fleet) = company_monthly_profit s \<and>
   request_counter (foldl register_taxi s fleet) = request_counter s"
  by (induction fleet arbitrary: s) (simp_all add: register_taxi_def)

lemma fleet_system_simps [simp]:
  "requests_index (fleet_system fleet) = []"
  "requests (fleet_system fleet) = []"
  "services (fleet_system fleet) = []"
  "completed_services (fleet_system fleet) = []"
  "adjudicator_thread (fleet_system fleet) = ANotAlive"
  "company_monthly_profit (fleet_system fleet) = 0"
  "request_counter (fleet_system fleet) = 0"
  using taxis_fleet_foldl [of CentralSystem_init fleet]
  by (simp_all add: fleet_system_def CentralSystem_init_def)

lemma inv_req_fleet: "inv_req (fleet_system fleet)"
  by (simp add: inv_req_defs inv_index_def req_keys_def req_of_def)

lemma inv_req_run: "run es (fleet_system fleet) = Some s \<Longrightarrow> inv_req s"
  by (rule run_invariant [of inv_req, OF _ inv_req_fleet]) (rule inv_req_step)

subsection \<open>A complete trip\<close>

lemma dist_00_34: "math_dist (0, 0) (3, 4) = 5"
  by (rule math_dist_eq) (simp_all add: power2_eq_square)

lemma dist_0: "math_dist (0, 0) (0, 0) = 0"
  by (simp add: math_dist_def)

lemma one_taxi_eq: "one_taxi = CentralSystem_init\<lparr>taxis := [(1, new_Taxi 1 ''TAXI-101'' (0, 0))]\<rparr>"
  by (simp add: one_taxi_def fleet_system_def register_taxi_def new_Taxi_def CentralSystem_init_def)

lemmas eval_defs = CentralSystem_init_def new_Taxi_def new_RequestObj_def demo_client_def
  op_defs adj_step_def svc_step_def req_of_def taxi_of_def scan_taxi_def sort_candidates_def
  rating_of_def MATCH_RADIUS_def SERVICE_FEE_RATE_def trip_fare_def move_smooth_pos_def
  py_round_def round_half_even_def dist_00_34 dist_0

lemma run_trip:
  "\<exists>s. run trip_events one_taxi = Some s \<and>
       req_of s 1 = Some \<lparr>request_id = 1, client = demo_client, origin = (0, 0), destination = (3, 4),
          timestamp = 0, assigned_taxi = Some 1, completed = True, fare = 10\<rparr> \<and>
       company_monthly_profit s = 2"
  unfolding trip_events_def one_taxi_eq
  by (simp add: eval_nat_numeral eval_defs)

subsection \<open>Completed requests\<close>

lemma math_dist_nonneg: "0 \<le> math_dist p q"
  by (simp add: math_dist_def)

lemma round_half_even_ge_floor: "\<lfloor>x\<rfloor> \<le> round_half_even x"
  by (simp add: round_half_even_def Let_def)

lemma py_round_2_ge: "2 \<le> x \<Longrightarrow> 2 \<le> py_round x 2"
proof -
  assume "2 \<le> x"
  then have "(200::real) \<le> x * 100" by simp
  then have "(200::int) \<le> \<lfloor>x * 100\<rfloor>" by (simp add: le_floor_iff)
  then have "(200::int) \<le> round_half_even (x * 100)"
    using round_half_even_ge_floor [of "x * 100"] by linarith
  then have "(200::real) \<le> of_int (round_half_even (x * 100))" by simp
  then show ?thesis by (simp add: py_round_def)
qed

lemma trip_fare_ge: "2 \<le> trip_fare r"
  unfolding trip_fare_def
  by (rule py_round_2_ge) (simp add: math_dist_nonneg)

text \<open>
  Claim C2. In every state of every execution, the fare recorded in a completed request
  is the distance from its origin to its destination times 1.6 plus 2.0, rounded to two
  places, and it is positive.
\<close>

theorem completed_fare:
  assumes "run es (fleet_system fleet) = Some s" and "req_of s rid = Some r" and "completed r"
  shows "fare r = py_round (math_dist (origin r) (destination r) * (16 / 10) + 2) 2 \<and> 0 < fare r"
proof -
  have "inv_completed s" using inv_req_run [OF assms(1)] by (simp add: inv_req_def)
  then have "fare r = trip_fare r" using assms(2,3) by (auto simp: inv_completed_def)
  then show ?thesis using trip_fare_ge [of r] by (simp add: trip_fare_def)
qed

theorem completed_fare_witness:
  "\<exists>s r. run trip_events (fleet_system [new_Taxi 1 ''TAXI-101'' (0, 0)]) = Some s \<and>
     req_of s 1 = Some r \<and> completed r \<and> origin r = (0, 0) \<and> destination r = (3, 4) \<and>
     fare r = py_round (math_dist (0, 0) (3, 4) * (16 / 10) + 2) 2 \<and> fare r = 10"
proof -
  obtain s where s: "run trip_events one_taxi = Some s"
    and r: "req_of s 1 = Some \<lparr>request_id = 1, client = demo_client, origin = (0, 0), destination = (3, 4),
          timestamp = 0, assigned_taxi = Some 1, completed = True, fare = 10\<rparr>"
    using run_trip by blast
  show ?thesis
    using completed_fare [of trip_events "[new_Taxi 1 ''TAXI-101'' (0, 0)]" s 1, OF _ r] s r
    by (simp add: one_taxi_def)
qed

subsection \<open>Profit and earnings\<close>

lemma sum_list_map_update:
  fixes f :: "'a \<Rightarrow> real"
  shows "i < length xs \<Longrightarrow> sum_list (map f (xs[i := y])) = sum_list (map f xs) - f (xs ! i) + f y"
proof (induction xs arbitrary: i)
  case Nil
  then show ?case by simp
next
  case (Cons x xs)
  then show ?case by (cases i) simp_all
qed

lemma trip_fare_of_step:
  assumes "inv_req s" "step e s = Some s'" "rid \<in> req_keys s"
  shows "trip_fare_of s' rid = trip_fare_of s rid"
  using assms(2)
proof (cases rule: step_cases)
  case (Submit c org dst now)
  have "request_counter s + 1 \<notin> req_keys s"
    using assms(1) by (fastforce simp: inv_req_def inv_index_def)
  then have "rid \<noteq> request_counter s + 1" using assms(3) by auto
  then show ?thesis
    unfolding Submit by (simp add: trip_fare_of_def req_of_def op_defs AList.update_conv')
next
  case Start
  then show ?thesis by (simp add: trip_fare_of_def req_of_def op_defs)
next
  case Stop
  then show ?thesis by (simp add: trip_fare_of_def req_of_def op_defs)
next
  case Adj
  from Adj(2) show ?thesis
    by (cases rule: adj_step_cases)
       (auto simp add: trip_fare_of_def req_of_def op_defs AList.map_of_map_entry split: option.splits)
next
  case (Svc i sample now)
  from Svc(2) show ?thesis
    by (cases rule: svc_step_cases)
       (auto simp add: trip_fare_of_def req_of_def op_defs AList.map_of_map_entry split: option.splits)
qed

lemma taxi_of_fun: "taxi_of s = map_of (taxis s)"
  by (rule ext) (simp add: taxi_of_def)

lemma req_of_fun: "req_of s = map_of (requests_index s)"
  by (rule ext) (simp add: req_of_def)

lemma svc_step_summary:
  assumes "svc_step i sample now s = Some s'"
  obtains r t pc' t' where
    "i < length (services s)"
    "req_of s (svc_req (services s ! i)) = Some r"
    "taxi_of s (svc_taxi (services s ! i)) = Some t"
    "services s' = (services s)[i := (services s ! i)\<lparr>svc_pc := pc'\<rparr>]"
    "released pc' \<longleftrightarrow> released (svc_pc (services s ! i)) \<or> svc_pc (services s ! i) = SFinTaxi"
    "pc' = SProfit \<longleftrightarrow> svc_pc (services s ! i) = SAppend"
    "pc' \<noteq> SFinTaxi \<or> \<not> released (svc_pc (services s ! i))"
    "completed_services s' =
       completed_services s @ (if svc_pc (services s ! i) = SAppend then [svc_req (services s ! i)] else [])"
    "company_monthly_profit s' =
       company_monthly_profit s +
         (if svc_pc (services s ! i) = SProfit then trip_fare r * SERVICE_FEE_RATE else 0)"
    "taxi_of s' = (taxi_of s)(svc_taxi (services s ! i) \<mapsto> t')"
    "earnings t' =
       earnings t +
         (if svc_pc (services s ! i) = SFinTaxi then trip_fare r * (1 - SERVICE_FEE_RATE) else 0)"
    "available t' \<longleftrightarrow> available t \<or> svc_pc (services s ! i) = SFinTaxi"
    "adjudicator_thread s' = adjudicator_thread s"
    "requests s' = requests s"
    "map fst (taxis s') = map fst (taxis s)"
  using assms
proof (cases rule: svc_step_cases)
  case (Begin r t)
  have tt: "(taxi_of s)(svc_taxi (services s ! i) \<mapsto> t) = taxi_of s"
    using Begin(3) by (simp add: map_upd_triv)
  show ?thesis
    by (rule that [of r t "SPickup (location t) 0" "t"])
       (use Begin tt in \<open>simp_all add: op_defs taxi_of_fun AList.map_of_map_entry map_fst_map_entry\<close>)
next
  case (Pickup r t p n)
  have tt: "(taxi_of s)(svc_taxi (services s ! i) \<mapsto> t) = taxi_of s"
    using Pickup(3) by (simp add: map_upd_triv)
  show ?thesis
    by (rule that [of r t "if n + 1 < 15 then SPickup p (n + 1) else STrip 0" "t\<lparr>location := move_smooth_pos p (origin r) 15 n\<rparr>"])
       (use Pickup tt in \<open>simp_all add: op_defs taxi_of_fun AList.map_of_map_entry map_fst_map_entry\<close>)
next
  case (Trip r t n)
  have tt: "(taxi_of s)(svc_taxi (services s ! i) \<mapsto> t) = taxi_of s"
    using Trip(3) by (simp add: map_upd_triv)
  show ?thesis
    by (rule that [of r t "if n + 1 < 25 then STrip (n + 1) else SFinTaxi" "t\<lparr>location := move_smooth_pos (origin r) (destination r) 25 n\<rparr>"])
       (use Trip tt in \<open>simp_all add: op_defs taxi_of_fun AList.map_of_map_entry map_fst_map_entry\<close>)
next
  case (FinTaxi r t)
  have tt: "(taxi_of s)(svc_taxi (services s ! i) \<mapsto> t) = taxi_of s"
    using FinTaxi(3) by (simp add: map_upd_triv)
  show ?thesis
    by (rule that [of r t "SSetFare" "t\<lparr>location := destination r, available := True, earnings := earnings t + trip_fare r * (1 - SERVICE_FEE_RATE)\<rparr>"])
       (use FinTaxi tt in \<open>simp_all add: op_defs taxi_of_fun AList.map_of_map_entry map_fst_map_entry\<close>)
next
  case (SetFare r t)
  have tt: "(taxi_of s)(svc_taxi (services s ! i) \<mapsto> t) = taxi_of s"
    using SetFare(3) by (simp add: map_upd_triv)
  show ?thesis
    by (rule that [of r t "SSetCompleted" "t"])
       (use SetFare tt in \<open>simp_all add: op_defs taxi_of_fun AList.map_of_map_entry map_fst_map_entry\<close>)
next
  case (SetCompleted r t)
  have tt: "(taxi_of s)(svc_taxi (services s ! i) \<mapsto> t) = taxi_of s"
    using SetCompleted(3) by (simp add: map_upd_triv)
  show ?thesis
    by (rule that [of r t "SAppend" "t"])
       (use SetCompleted tt in \<open>simp_all add: op_defs taxi_of_fun AList.map_of_map_entry map_fst_map_entry\<close>)
next
  case (Append r t)
  have tt: "(taxi_of s)(svc_taxi (services s ! i) \<mapsto> t) = taxi_of s"
    using Append(3) by (simp add: map_upd_triv)
  show ?thesis
    by (rule that [of r t "SProfit" "t"])
       (use Append tt in \<open>simp_all add: op_defs taxi_of_fun AList.map_of_map_entry map_fst_map_entry\<close>)
next
  case (Profit r t)
  have tt: "(taxi_of s)(svc_taxi (services s ! i) \<mapsto> t) = taxi_of s"
    using Profit(3) by (simp add: map_upd_triv)
  show ?thesis
    by (rule that [of r t "SRating" "t"])
       (use Profit tt in \<open>simp_all add: op_defs taxi_of_fun AList.map_of_map_entry map_fst_map_entry\<close>)
next
  case (Rating r t)
  have tt: "(taxi_of s)(svc_taxi (services s ! i) \<mapsto> t) = taxi_of s"
    using Rating(3) by (simp add: map_upd_triv)
  show ?thesis
    by (rule that [of r t "SSeries" "t\<lparr>rating := py_round ((rating t + sample) / 2) 2\<rparr>"])
       (use Rating tt in \<open>simp_all add: op_defs taxi_of_fun AList.map_of_map_entry map_fst_map_entry\<close>)
next
  case (Series r t)
  have tt: "(taxi_of s)(svc_taxi (services s ! i) \<mapsto> t) = taxi_of s"
    using Series(3) by (simp add: map_upd_triv)
  show ?thesis
    by (rule that [of r t "SDone" "t"])
       (use Series tt in \<open>simp_all add: op_defs taxi_of_fun AList.map_of_map_entry map_fst_map_entry\<close>)
qed

lemma adj_step_frame:
  assumes "adj_step s = Some s'"
  shows "completed_services s' = completed_services s"
    and "company_monthly_profit s' = company_monthly_profit s"
    and "map fst (taxis s') = map fst (taxis s)"
    and "services s' = services s \<or>
         (\<exists>rid k. adjudicator_thread s = ASpawn rid k \<and>
            services s' = services s @ [\<lparr>svc_req = rid, svc_taxi = k, svc_pc = SStart\<rparr>])"
    and "taxi_of s' k = Some t' \<Longrightarrow> \<exists>t. taxi_of s k = Some t \<and> earnings t' = earnings t"
  using assms
  by (cases rule: adj_step_cases;
      auto simp add: op_defs taxi_of_def AList.map_of_map_entry map_fst_map_entry
        split: if_splits option.splits)+

lemma profit_due_start [simp]: "profit_due s \<lparr>svc_req = rid, svc_taxi = k, svc_pc = SStart\<rparr> = 0"
  by (simp add: profit_due_def)

lemma paid_start [simp]: "paid s k' \<lparr>svc_req = rid, svc_taxi = k, svc_pc = SStart\<rparr> = 0"
  by (simp add: paid_def)

lemma svc_reqs_in_keys:
  "inv_index s \<Longrightarrow> th \<in> set (services s) \<Longrightarrow> svc_req th \<in> req_keys s"
  by (auto simp: inv_index_def in_set_conv_nth)

lemma inv_profit_frame:
  assumes ix: "inv_index s"
    and stable: "\<And>rid. rid \<in> req_keys s \<Longrightarrow> trip_fare_of s' rid = trip_fare_of s rid"
  shows "(\<Sum>rid\<leftarrow>completed_services s. trip_fare_of s' rid * SERVICE_FEE_RATE) =
         (\<Sum>rid\<leftarrow>completed_services s. trip_fare_of s rid * SERVICE_FEE_RATE)"
    and "(\<Sum>th\<leftarrow>services s. profit_due s' th) = (\<Sum>th\<leftarrow>services s. profit_due s th)"
    and "(\<Sum>th\<leftarrow>services s. paid s' k th) = (\<Sum>th\<leftarrow>services s. paid s k th)"
proof -
  have "set (completed_services s) \<subseteq> req_keys s" using ix by (simp add: inv_index_def)
  then have "map (\<lambda>rid. trip_fare_of s' rid * SERVICE_FEE_RATE) (completed_services s) =
             map (\<lambda>rid. trip_fare_of s rid * SERVICE_FEE_RATE) (completed_services s)"
    using stable by (intro map_cong) auto
  then show "(\<Sum>rid\<leftarrow>completed_services s. trip_fare_of s' rid * SERVICE_FEE_RATE) =
         (\<Sum>rid\<leftarrow>completed_services s. trip_fare_of s rid * SERVICE_FEE_RATE)"
    by (rule arg_cong)
  have "map (profit_due s') (services s) = map (profit_due s) (services s)"
    using stable svc_reqs_in_keys [OF ix] by (intro map_cong) (auto simp: profit_due_def)
  then show "(\<Sum>th\<leftarrow>services s. profit_due s' th) = (\<Sum>th\<leftarrow>services s. profit_due s th)"
    by (rule arg_cong)
  have "map (paid s' k) (services s) = map (paid s k) (services s)"
    using stable svc_reqs_in_keys [OF ix] by (intro map_cong) (auto simp: paid_def)
  then show "(\<Sum>th\<leftarrow>services s. paid s' k th) = (\<Sum>th\<leftarrow>services s. paid s k th)"
    by (rule arg_cong)
qed

lemma env_step_frame:
  assumes "s' = snd (create_client_request s c org dst now) \<or> s' = start s \<or> s' = stop s"
  shows "services s' = services s" and "completed_services s' = completed_services s"
    and "company_monthly_profit s' = company_monthly_profit s" and "taxis s' = taxis s"
  using assms by (auto simp add: op_defs)

lemma inv_profit_step:
  assumes rq: "inv_req s" and pr: "inv_profit s" and st: "step e s = Some s'"
  shows "inv_profit s'"
proof -
  have ix: "inv_index s" using rq by (simp add: inv_req_def)
  have stable: "\<And>rid. rid \<in> req_keys s \<Longrightarrow> trip_fare_of s' rid = trip_fare_of s rid"
    using trip_fare_of_step [OF rq st] .
  note fr = inv_profit_frame [OF ix stable]
  from st show ?thesis
  proof (cases rule: step_cases)
    case (Submit c org dst now)
    then have "s' = snd (create_client_request s c org dst now) \<or> s' = start s \<or> s' = stop s"
      by simp
    note f = env_step_frame [OF this]
    show ?thesis using pr fr(1,2) unfolding inv_profit_def f(1,2,3) by simp
  next
    case Start
    note f = env_step_frame [OF disjI2 [OF disjI1 [OF Start(2)]]]
    show ?thesis using pr fr(1,2) unfolding inv_profit_def f(1,2,3) by simp
  next
    case Stop
    note f = env_step_frame [OF disjI2 [OF disjI2 [OF Stop(2)]]]
    show ?thesis using pr fr(1,2) unfolding inv_profit_def f(1,2,3) by simp
  next
    case Adj
    note f = adj_step_frame [OF Adj(2)]
    from f(4) show ?thesis
    proof
      assume "services s' = services s"
      then show ?thesis using pr fr(1,2) f(1,2) unfolding inv_profit_def by simp
    next
      assume "\<exists>rid k. adjudicator_thread s = ASpawn rid k \<and>
            services s' = services s @ [\<lparr>svc_req = rid, svc_taxi = k, svc_pc = SStart\<rparr>]"
      then show ?thesis using pr fr(1,2) f(1,2) unfolding inv_profit_def
        by auto
    qed
  next
    case (Svc i sample now)
    from Svc(2) show ?thesis
    proof (cases rule: svc_step_summary)
      case (1 r t pc' t')
      let ?th = "services s ! i"
      have tf: "trip_fare_of s (svc_req ?th) = trip_fare r"
        using 1(2) by (simp add: trip_fare_of_def)
      have key: "svc_req ?th \<in> req_keys s" using ix 1(1) by (simp add: inv_index_def)
      have due': "(\<Sum>th\<leftarrow>services s'. profit_due s' th) =
          (\<Sum>th\<leftarrow>services s. profit_due s th) - profit_due s ?th
            + profit_due s (?th\<lparr>svc_pc := pc'\<rparr>)"
      proof -
        have "map (profit_due s') (services s') = map (profit_due s) (services s')"
        proof (intro map_cong refl)
          fix th assume "th \<in> set (services s')"
          then have "th = ?th\<lparr>svc_pc := pc'\<rparr> \<or> th \<in> set (services s)"
            unfolding 1(4) using set_update_subset_insert [of "services s" i] by blast
          then have "svc_req th \<in> req_keys s"
            using key svc_reqs_in_keys [OF ix] by auto
          then show "profit_due s' th = profit_due s th"
            using stable by (simp add: profit_due_def)
        qed
        then have "sum_list (map (profit_due s') (services s')) = sum_list (map (profit_due s) (services s'))"
          by (rule arg_cong)
        also have "\<dots> = sum_list (map (profit_due s) (services s)) - profit_due s ?th + profit_due s (?th\<lparr>svc_pc := pc'\<rparr>)"
          unfolding 1(4) using 1(1) by (simp add: sum_list_map_update)
        finally show ?thesis .
      qed
      have cs': "(\<Sum>rid\<leftarrow>completed_services s'. trip_fare_of s' rid * SERVICE_FEE_RATE) =
          (\<Sum>rid\<leftarrow>completed_services s. trip_fare_of s rid * SERVICE_FEE_RATE) +
          (if svc_pc ?th = SAppend then trip_fare r * SERVICE_FEE_RATE else 0)"
        using fr(1) stable [OF key] tf unfolding 1(8) by simp
      have d1: "profit_due s ?th = (if svc_pc ?th = SProfit then trip_fare r * SERVICE_FEE_RATE else 0)"
        using tf by (simp add: profit_due_def)
      have d2: "profit_due s (?th\<lparr>svc_pc := pc'\<rparr>) =
          (if svc_pc ?th = SAppend then trip_fare r * SERVICE_FEE_RATE else 0)"
        using tf 1(6) by (simp add: profit_due_def)
      show ?thesis
        unfolding inv_profit_def cs' due' 1(9) d1 d2
        using pr by (simp add: inv_profit_def)
    qed
  qed
qed

lemma inv_earnings_step:
  assumes rq: "inv_req s" and pr: "inv_earnings c k s" and st: "step e s = Some s'"
  shows "inv_earnings c k s'"
proof -
  have ix: "inv_index s" using rq by (simp add: inv_req_def)
  have stable: "\<And>rid. rid \<in> req_keys s \<Longrightarrow> trip_fare_of s' rid = trip_fare_of s rid"
    using trip_fare_of_step [OF rq st] .
  note fr = inv_profit_frame [OF ix stable]
  from st show ?thesis
  proof (cases rule: step_cases)
    case (Submit c org dst now)
    then have "s' = snd (create_client_request s c org dst now) \<or> s' = start s \<or> s' = stop s"
      by simp
    note f = env_step_frame [OF this]
    show ?thesis using pr fr(3) [of k] unfolding inv_earnings_def taxi_of_def f(1,4) by simp
  next
    case Start
    note f = env_step_frame [OF disjI2 [OF disjI1 [OF Start(2)]]]
    show ?thesis using pr fr(3) [of k] unfolding inv_earnings_def taxi_of_def f(1,4) by simp
  next
    case Stop
    note f = env_step_frame [OF disjI2 [OF disjI2 [OF Stop(2)]]]
    show ?thesis using pr fr(3) [of k] unfolding inv_earnings_def taxi_of_def f(1,4) by simp
  next
    case Adj
    note f = adj_step_frame [OF Adj(2)]
    have sm: "(\<Sum>th\<leftarrow>services s'. paid s' k th) = (\<Sum>th\<leftarrow>services s. paid s k th)"
      using f(4) fr(3) [of k] by auto
    show ?thesis
      unfolding inv_earnings_def sm using pr f(5) [of k] by (fastforce simp: inv_earnings_def)
  next
    case (Svc i sample now)
    from Svc(2) show ?thesis
    proof (cases rule: svc_step_summary)
      case (1 r t pc' t')
      let ?th = "services s ! i"
      have tf: "trip_fare_of s (svc_req ?th) = trip_fare r"
        using 1(2) by (simp add: trip_fare_of_def)
      have key: "svc_req ?th \<in> req_keys s" using ix 1(1) by (simp add: inv_index_def)
      have paid': "(\<Sum>th\<leftarrow>services s'. paid s' k th) =
          (\<Sum>th\<leftarrow>services s. paid s k th) - paid s k ?th + paid s k (?th\<lparr>svc_pc := pc'\<rparr>)"
      proof -
        have "map (paid s' k) (services s') = map (paid s k) (services s')"
        proof (intro map_cong refl)
          fix th assume "th \<in> set (services s')"
          then have "th = ?th\<lparr>svc_pc := pc'\<rparr> \<or> th \<in> set (services s)"
            unfolding 1(4) using set_update_subset_insert [of "services s" i] by blast
          then have "svc_req th \<in> req_keys s"
            using key svc_reqs_in_keys [OF ix] by auto
          then show "paid s' k th = paid s k th"
            using stable by (simp add: paid_def)
        qed
        then have "sum_list (map (paid s' k) (services s')) = sum_list (map (paid s k) (services s'))"
          by (rule arg_cong)
        also have "\<dots> = sum_list (map (paid s k) (services s)) - paid s k ?th + paid s k (?th\<lparr>svc_pc := pc'\<rparr>)"
          unfolding 1(4) using 1(1) by (simp add: sum_list_map_update)
        finally show ?thesis .
      qed
      show ?thesis
      proof (cases "svc_taxi ?th = k")
        case True
        have p1: "paid s k ?th =
            (if released (svc_pc ?th) then trip_fare r * (1 - SERVICE_FEE_RATE) else 0)"
          using tf True by (simp add: paid_def)
        have p2: "paid s k (?th\<lparr>svc_pc := pc'\<rparr>) =
            (if released (svc_pc ?th) \<or> svc_pc ?th = SFinTaxi
             then trip_fare r * (1 - SERVICE_FEE_RATE) else 0)"
          using tf True 1(5) by (simp add: paid_def)
        have nr: "svc_pc ?th = SFinTaxi \<Longrightarrow> \<not> released (svc_pc ?th)" by simp
        have e: "earnings t = c + (\<Sum>th\<leftarrow>services s. paid s k th)"
          using pr 1(3) True by (simp add: inv_earnings_def)
        show ?thesis
          unfolding inv_earnings_def paid' p1 p2 1(10)
          using True 1(11) e nr by auto
      next
        case False
        have p1: "paid s k ?th = 0" using False by (simp add: paid_def)
        have p2: "paid s k (?th\<lparr>svc_pc := pc'\<rparr>) = 0" using False by (simp add: paid_def)
        show ?thesis
          unfolding inv_earnings_def paid' p1 p2 1(10)
          using False pr by (simp add: inv_earnings_def)
      qed
    qed
  qed
qed

lemma inv_profit_run:
  assumes "run es (fleet_system fleet) = Some s"
  shows "inv_profit s"
proof -
  have "inv_req s \<and> inv_profit s"
  proof (rule run_invariant [of "\<lambda>s. inv_req s \<and> inv_profit s", OF _ _ assms])
    show "inv_req (fleet_system fleet) \<and> inv_profit (fleet_system fleet)"
      by (simp add: inv_req_fleet inv_profit_def)
  next
    fix e s s' assume "inv_req s \<and> inv_profit s" "step e s = Some s'"
    then show "inv_req s' \<and> inv_profit s'"
      using inv_req_step inv_profit_step by blast
  qed
  then show ?thesis by simp
qed

lemma inv_earnings_run:
  assumes "run es (fleet_system fleet) = Some s" and "taxi_of (fleet_system fleet) k = Some t0"
  shows "inv_earnings (earnings t0) k s"
proof -
  have "inv_req s \<and> inv_earnings (earnings t0) k s"
  proof (rule run_invariant [of "\<lambda>s. inv_req s \<and> inv_earnings (earnings t0) k s", OF _ _ assms(1)])
    show "inv_req (fleet_system fleet) \<and> inv_earnings (earnings t0) k (fleet_system fleet)"
      using assms(2) by (simp add: inv_req_fleet inv_earnings_def)
  next
    fix e s s' assume "inv_req s \<and> inv_earnings (earnings t0) k s" "step e s = Some s'"
    then show "inv_req s' \<and> inv_earnings (earnings t0) k s'"
      using inv_req_step inv_earnings_step by blast
  qed
  then show ?thesis by simp
qed

lemma recorded_fare_done:
  assumes "inv_req s" "rid \<in> set (completed_services s)"
  shows "recorded_fare s rid = trip_fare_of s rid"
proof -
  obtain r where r: "req_of s rid = Some r" "completed r"
    using assms by (auto simp: inv_req_def inv_done_def)
  then have "fare r = trip_fare r" using assms(1) by (auto simp: inv_req_def inv_completed_def)
  then show ?thesis using r by (simp add: recorded_fare_def trip_fare_of_def)
qed

lemma recorded_fare_thread:
  assumes "inv_req s" "th \<in> set (services s)" "fare_set (svc_pc th)"
  shows "recorded_fare s (svc_req th) = trip_fare_of s (svc_req th)"
proof -
  obtain i where i: "i < length (services s)" "services s ! i = th"
    using assms(2) by (auto simp: in_set_conv_nth)
  then obtain r where r: "req_of s (svc_req th) = Some r" "req_ok (svc_pc th) r"
    using assms(1) by (auto simp: inv_req_def inv_thread_def)
  then show ?thesis using assms(3) by (simp add: recorded_fare_def trip_fare_of_def req_ok_def)
qed

text \<open>
  Claim C3. In every state of every execution, the profit of the trips in the completed
  list (the fare recorded in each, times \<open>SERVICE_FEE_RATE\<close>) is the company profit
  plus the part of the trips that have appended their request and not yet added their
  share; so whenever no trip is between lines 213 and 215, and in particular after the
  trips have ended, the company profit is the sum of \<open>fare * SERVICE_FEE_RATE\<close> over
  the completed requests. The earnings of a taxi are its initial earnings plus
  \<open>fare * (1 - SERVICE_FEE_RATE)\<close> for every trip that has released it: the release is
  the one step that changes them. Floats are reals, so the sums are exact.
\<close>

theorem profit_and_earnings:
  assumes "run es (fleet_system fleet) = Some s"
  shows "(\<Sum>rid\<leftarrow>completed_services s. recorded_fare s rid * SERVICE_FEE_RATE) =
           company_monthly_profit s +
           (\<Sum>th\<leftarrow>filter (\<lambda>th. svc_pc th = SProfit) (services s).
              recorded_fare s (svc_req th) * SERVICE_FEE_RATE) \<and>
         ((\<forall>th \<in> set (services s). svc_pc th \<noteq> SProfit) \<longrightarrow>
            company_monthly_profit s =
              (\<Sum>rid\<leftarrow>completed_services s. recorded_fare s rid * SERVICE_FEE_RATE)) \<and>
         (\<forall>k t0 t. taxi_of (fleet_system fleet) k = Some t0 \<and> taxi_of s k = Some t \<longrightarrow>
            earnings t =
              earnings t0 +
              (\<Sum>th\<leftarrow>filter (\<lambda>th. released (svc_pc th) \<and> svc_taxi th = k) (services s).
                 trip_fare_of s (svc_req th) * (1 - SERVICE_FEE_RATE)))"
proof -
  have rq: "inv_req s" using inv_req_run [OF assms] .
  have pr: "inv_profit s" using inv_profit_run [OF assms] .
  have cs: "map (\<lambda>rid. recorded_fare s rid * SERVICE_FEE_RATE) (completed_services s) =
            map (\<lambda>rid. trip_fare_of s rid * SERVICE_FEE_RATE) (completed_services s)"
    using recorded_fare_done [OF rq] by (intro map_cong) auto
  have th: "map (\<lambda>th. recorded_fare s (svc_req th) * SERVICE_FEE_RATE)
              (filter (\<lambda>th. svc_pc th = SProfit) (services s)) =
            map (\<lambda>th. trip_fare_of s (svc_req th) * SERVICE_FEE_RATE)
              (filter (\<lambda>th. svc_pc th = SProfit) (services s))"
    using recorded_fare_thread [OF rq] by (intro map_cong) auto
  have due: "(\<Sum>th\<leftarrow>services s. profit_due s th) =
      (\<Sum>th\<leftarrow>filter (\<lambda>th. svc_pc th = SProfit) (services s).
         trip_fare_of s (svc_req th) * SERVICE_FEE_RATE)"
    unfolding sum_list_map_filter' by (rule arg_cong [where f = sum_list]) (auto simp: profit_due_def)
  have main: "(\<Sum>rid\<leftarrow>completed_services s. recorded_fare s rid * SERVICE_FEE_RATE) =
           company_monthly_profit s +
           (\<Sum>th\<leftarrow>filter (\<lambda>th. svc_pc th = SProfit) (services s).
              recorded_fare s (svc_req th) * SERVICE_FEE_RATE)"
    unfolding cs th using pr due by (simp add: inv_profit_def)
  have quiet: "company_monthly_profit s =
              (\<Sum>rid\<leftarrow>completed_services s. recorded_fare s rid * SERVICE_FEE_RATE)"
    if "\<forall>th \<in> set (services s). svc_pc th \<noteq> SProfit"
  proof -
    have "filter (\<lambda>th. svc_pc th = SProfit) (services s) = []"
      using that by (simp add: filter_empty_conv)
    then show ?thesis using main by simp
  qed
  have earn: "earnings t =
              earnings t0 +
              (\<Sum>th\<leftarrow>filter (\<lambda>th. released (svc_pc th) \<and> svc_taxi th = k) (services s).
                 trip_fare_of s (svc_req th) * (1 - SERVICE_FEE_RATE))"
    if "taxi_of (fleet_system fleet) k = Some t0" "taxi_of s k = Some t" for k t0 t
  proof -
    have "earnings t = earnings t0 + (\<Sum>th\<leftarrow>services s. paid s k th)"
      using inv_earnings_run [OF assms that(1)] that(2) by (simp add: inv_earnings_def)
    moreover have "(\<Sum>th\<leftarrow>services s. paid s k th) =
        (\<Sum>th\<leftarrow>filter (\<lambda>th. released (svc_pc th) \<and> svc_taxi th = k) (services s).
                 trip_fare_of s (svc_req th) * (1 - SERVICE_FEE_RATE))"
      unfolding sum_list_map_filter' by (rule arg_cong [where f = sum_list]) (auto simp: paid_def)
    ultimately show ?thesis by simp
  qed
  show ?thesis using main quiet earn by blast
qed

lemma run_trip_money:
  "\<exists>s. run trip_events one_taxi = Some s \<and>
       completed_services s = [1] \<and> company_monthly_profit s = 2 \<and>
       services s = [\<lparr>svc_req = 1, svc_taxi = 1, svc_pc = SDone\<rparr>] \<and>
       recorded_fare s 1 = 10 \<and> trip_fare_of s 1 = 10 \<and>
       taxi_of s 1 = Some \<lparr>taxi_id = 1, plate = ''TAXI-101'', location = (3, 4), rating = 425 / 100,
         available = True, earnings = 8\<rparr>"
  unfolding trip_events_def one_taxi_eq
  by (simp add: eval_nat_numeral eval_defs recorded_fare_def trip_fare_of_def)

theorem profit_and_earnings_witness:
  "\<exists>s t. run trip_events (fleet_system [new_Taxi 1 ''TAXI-101'' (0, 0)]) = Some s \<and>
     completed_services s = [1] \<and> recorded_fare s 1 = 10 \<and>
     company_monthly_profit s = 10 * SERVICE_FEE_RATE \<and>
     taxi_of (fleet_system [new_Taxi 1 ''TAXI-101'' (0, 0)]) 1 = Some (new_Taxi 1 ''TAXI-101'' (0, 0)) \<and>
     taxi_of s 1 = Some t \<and> earnings t = 0 + 10 * (1 - SERVICE_FEE_RATE)"
proof -
  obtain s where s: "run trip_events one_taxi = Some s"
    "completed_services s = [1]" "company_monthly_profit s = 2"
    "services s = [\<lparr>svc_req = 1, svc_taxi = 1, svc_pc = SDone\<rparr>]"
    "recorded_fare s 1 = 10" "trip_fare_of s 1 = 10"
    "taxi_of s 1 = Some \<lparr>taxi_id = 1, plate = ''TAXI-101'', location = (3, 4), rating = 425 / 100,
         available = True, earnings = 8\<rparr>"
    using run_trip_money by blast
  have t0: "taxi_of (fleet_system [new_Taxi 1 ''TAXI-101'' (0, 0)]) 1 = Some (new_Taxi 1 ''TAXI-101'' (0, 0))"
    by (simp add: taxi_of_def fleet_system_def register_taxi_def new_Taxi_def CentralSystem_init_def)
  show ?thesis
    using profit_and_earnings [of trip_events "[new_Taxi 1 ''TAXI-101'' (0, 0)]" s] s t0
    by (simp add: one_taxi_def new_Taxi_def SERVICE_FEE_RATE_def)
qed

subsection \<open>One trip per taxi\<close>

lemma length_filter_update:
  "i < length xs \<Longrightarrow>
     length (filter P (xs[i := y])) + (if P (xs ! i) then 1 else 0) =
     length (filter P xs) + (if P y then 1 else 0)"
proof (induction xs arbitrary: i)
  case Nil
  then show ?case by simp
next
  case (Cons x xs)
  then show ?case by (cases i) auto
qed

lemma env_step_holders:
  assumes "s' = snd (create_client_request s c org dst now) \<or> s' = start s \<or> s' = stop s"
  shows "taxi_of s' = taxi_of s" and "holders s' k = holders s k"
proof -
  note f = env_step_frame [OF assms]
  show "taxi_of s' = taxi_of s" by (simp add: taxi_of_fun f(4))
  have "adj_claimed (adjudicator_thread s') = adj_claimed (adjudicator_thread s)"
    using assms by (cases "adjudicator_thread s") (auto simp add: op_defs)
  then show "holders s' k = holders s k" by (simp add: holders_def f(1))
qed

lemma adj_step_holders:
  assumes "adj_step s = Some s'"
  shows "(\<exists>rid k t. adjudicator_thread s = AClaim rid k \<and> taxi_of s k = Some t \<and> available t \<and>
            taxi_of s' = (taxi_of s)(k \<mapsto> t\<lparr>available := False\<rparr>) \<and>
            (\<forall>k'. holders s' k' = holders s k' + (if k' = k then 1 else 0))) \<or>
         (taxi_of s' = taxi_of s \<and> (\<forall>k'. holders s' k' = holders s k'))"
  using assms
proof (cases rule: adj_step_cases)
  case (Claim rid k t)
  then show ?thesis
    by (intro disjI1 exI [of _ rid] exI [of _ k] exI [of _ t])
       (simp add: op_defs taxi_of_fun holders_def AList.map_of_map_entry)
next
  case (Spawn rid k)
  then show ?thesis
    by (intro disjI2) (simp add: op_defs taxi_of_fun holders_def active_on_def)
qed (simp_all add: op_defs taxi_of_fun holders_def)

lemma svc_step_holders:
  assumes "svc_step i sample now s = Some s'"
  shows "\<exists>k t t'. taxi_of s k = Some t \<and> taxi_of s' = (taxi_of s)(k \<mapsto> t') \<and>
           ((available t' = available t \<and> (\<forall>k'. holders s' k' = holders s k')) \<or>
            (available t' \<and> holders s' k + 1 = holders s k \<and>
             (\<forall>k'. k' \<noteq> k \<longrightarrow> holders s' k' = holders s k')))"
  using assms
proof (cases rule: svc_step_summary)
  case (1 r t pc' t')
  let ?th = "services s ! i"
  have upd: "\<And>k'. length (filter (active_on k') (services s')) + (if active_on k' ?th then 1 else 0) =
     length (filter (active_on k') (services s)) + (if active_on k' (?th\<lparr>svc_pc := pc'\<rparr>) then 1 else 0)"
    unfolding 1(4) using length_filter_update [OF 1(1)] by blast
  show ?thesis
  proof (cases "svc_pc ?th = SFinTaxi")
    case True
    have a: "active_on (svc_taxi ?th) ?th" using True by (simp add: active_on_def)
    have b: "\<And>k'. \<not> active_on k' (?th\<lparr>svc_pc := pc'\<rparr>)" using True 1(5) by (simp add: active_on_def)
    have c: "\<And>k'. k' \<noteq> svc_taxi ?th \<Longrightarrow> \<not> active_on k' ?th" by (simp add: active_on_def)
    have h1: "holders s' (svc_taxi ?th) + 1 = holders s (svc_taxi ?th)"
      using upd [of "svc_taxi ?th"] a b 1(13) by (simp add: holders_def)
    have h2: "holders s' k' = holders s k'" if "k' \<noteq> svc_taxi ?th" for k'
      using upd [of k'] b [of k'] c [OF that] 1(13) by (simp add: holders_def)
    show ?thesis
      using 1(3,10,12) True h1 h2
      by (intro exI [of _ "svc_taxi ?th"] exI [of _ t] exI [of _ t']) simp
  next
    case False
    have same: "\<And>k'. active_on k' (?th\<lparr>svc_pc := pc'\<rparr>) = active_on k' ?th"
      using False 1(5) by (simp add: active_on_def)
    have h: "holders s' k' = holders s k'" for k'
      using upd [of k'] same [of k'] 1(13) by (simp add: holders_def)
    show ?thesis
      using 1(3,10,12) False h
      by (intro exI [of _ "svc_taxi ?th"] exI [of _ t] exI [of _ t']) simp
  qed
qed

lemma inv_excl_step:
  assumes "inv_excl s" "step e s = Some s'"
  shows "inv_excl s'"
  using assms(2)
proof (cases rule: step_cases)
  case (Submit c org dst now)
  then have "s' = snd (create_client_request s c org dst now) \<or> s' = start s \<or> s' = stop s" by simp
  from env_step_holders [OF this] show ?thesis using assms(1) by (simp add: inv_excl_def)
next
  case Start
  from env_step_holders [OF disjI2 [OF disjI1 [OF Start(2)]]] show ?thesis using assms(1) by (simp add: inv_excl_def)
next
  case Stop
  from env_step_holders [OF disjI2 [OF disjI2 [OF Stop(2)]]] show ?thesis using assms(1) by (simp add: inv_excl_def)
next
  case Adj
  from adj_step_holders [OF Adj(2)] show ?thesis
  proof
    assume "\<exists>rid k t. adjudicator_thread s = AClaim rid k \<and> taxi_of s k = Some t \<and> available t \<and>
            taxi_of s' = (taxi_of s)(k \<mapsto> t\<lparr>available := False\<rparr>) \<and>
            (\<forall>k'. holders s' k' = holders s k' + (if k' = k then 1 else 0))"
    then obtain rid k t where c: "taxi_of s k = Some t" "available t"
      "taxi_of s' = (taxi_of s)(k \<mapsto> t\<lparr>available := False\<rparr>)"
      "\<And>k'. holders s' k' = holders s k' + (if k' = k then 1 else 0)"
      by blast
    have "holders s k \<noteq> 1" using assms(1) c(1,2) by (auto simp: inv_excl_def)
    moreover have "holders s k \<le> 1" using assms(1) by (simp add: inv_excl_def)
    ultimately have z: "holders s k = 0" by linarith
    show ?thesis
      unfolding inv_excl_def
    proof (intro allI conjI impI)
      fix k'
      show "holders s' k' \<le> 1" using c(4) [of k'] z assms(1) by (auto simp: inv_excl_def)
      assume "holders s' k' = 1"
      then show "\<exists>t. taxi_of s' k' = Some t \<and> \<not> available t"
        using c(3) c(4) [of k'] assms(1) by (cases "k' = k") (auto simp: inv_excl_def)
    qed
  next
    assume "taxi_of s' = taxi_of s \<and> (\<forall>k'. holders s' k' = holders s k')"
    then show ?thesis using assms(1) by (simp add: inv_excl_def)
  qed
next
  case (Svc i sample now)
  from svc_step_holders [OF Svc(2)] obtain k t t' where
    c: "taxi_of s k = Some t" "taxi_of s' = (taxi_of s)(k \<mapsto> t')"
      "(available t' = available t \<and> (\<forall>k'. holders s' k' = holders s k')) \<or>
       (available t' \<and> holders s' k + 1 = holders s k \<and>
         (\<forall>k'. k' \<noteq> k \<longrightarrow> holders s' k' = holders s k'))"
    by blast
  show ?thesis
    unfolding inv_excl_def
  proof (intro allI conjI impI)
    fix k'
    show "holders s' k' \<le> 1"
      using c(3) assms(1) by (cases "k' = k") (auto simp: inv_excl_def le_Suc_eq dest: spec [of _ k])
    assume h: "holders s' k' = 1"
    show "\<exists>t. taxi_of s' k' = Some t \<and> \<not> available t"
    proof (cases "k' = k")
      case False
      then show ?thesis using h c(2,3) assms(1) by (auto simp: inv_excl_def)
    next
      case True
      from c(3) show ?thesis
      proof
        assume "available t' = available t \<and> (\<forall>k'. holders s' k' = holders s k')"
        then show ?thesis using h True c(1,2) assms(1) by (auto simp: inv_excl_def)
      next
        assume a: "available t' \<and> holders s' k + 1 = holders s k \<and>
         (\<forall>k'. k' \<noteq> k \<longrightarrow> holders s' k' = holders s k')"
        have "holders s k \<le> 1" using assms(1) by (simp add: inv_excl_def)
        then show ?thesis using a h True by simp
      qed
    qed
  qed
qed

lemma inv_avail_step:
  assumes "inv_excl s" "inv_avail s" "step e s = Some s'"
  shows "inv_avail s'"
  using assms(3)
proof (cases rule: step_cases)
  case (Submit c org dst now)
  then have "s' = snd (create_client_request s c org dst now) \<or> s' = start s \<or> s' = stop s" by simp
  from env_step_holders [OF this] show ?thesis using assms(2) by (simp add: inv_avail_def)
next
  case Start
  from env_step_holders [OF disjI2 [OF disjI1 [OF Start(2)]]] show ?thesis using assms(2) by (simp add: inv_avail_def)
next
  case Stop
  from env_step_holders [OF disjI2 [OF disjI2 [OF Stop(2)]]] show ?thesis using assms(2) by (simp add: inv_avail_def)
next
  case Adj
  from adj_step_holders [OF Adj(2)] show ?thesis
  proof
    assume "\<exists>rid k t. adjudicator_thread s = AClaim rid k \<and> taxi_of s k = Some t \<and> available t \<and>
            taxi_of s' = (taxi_of s)(k \<mapsto> t\<lparr>available := False\<rparr>) \<and>
            (\<forall>k'. holders s' k' = holders s k' + (if k' = k then 1 else 0))"
    then obtain rid k t where c: "taxi_of s k = Some t" "available t"
      "taxi_of s' = (taxi_of s)(k \<mapsto> t\<lparr>available := False\<rparr>)"
      "\<And>k'. holders s' k' = holders s k' + (if k' = k then 1 else 0)"
      by blast
    have "holders s k \<noteq> 1" using assms(1) c(1,2) by (auto simp: inv_excl_def)
    moreover have "holders s k \<le> 1" using assms(1) by (simp add: inv_excl_def)
    ultimately have z: "holders s k = 0" by linarith
    show ?thesis
      unfolding inv_avail_def
    proof (intro allI impI)
      fix k' t'' assume "taxi_of s' k' = Some t'' \<and> \<not> available t''"
      then show "holders s' k' = 1"
        using c(3) c(4) [of k'] z assms(2) by (cases "k' = k") (auto simp: inv_avail_def)
    qed
  next
    assume "taxi_of s' = taxi_of s \<and> (\<forall>k'. holders s' k' = holders s k')"
    then show ?thesis using assms(2) by (simp add: inv_avail_def)
  qed
next
  case (Svc i sample now)
  from svc_step_holders [OF Svc(2)] obtain k t t' where
    c: "taxi_of s k = Some t" "taxi_of s' = (taxi_of s)(k \<mapsto> t')"
      "(available t' = available t \<and> (\<forall>k'. holders s' k' = holders s k')) \<or>
       (available t' \<and> holders s' k + 1 = holders s k \<and>
         (\<forall>k'. k' \<noteq> k \<longrightarrow> holders s' k' = holders s k'))"
    by blast
  show ?thesis
    unfolding inv_avail_def
  proof (intro allI impI)
    fix k' t'' assume h: "taxi_of s' k' = Some t'' \<and> \<not> available t''"
    show "holders s' k' = 1"
    proof (cases "k' = k")
      case False
      then show ?thesis using h c(2,3) assms(2) by (auto simp: inv_avail_def)
    next
      case True
      then have "t'' = t'" using h c(2) by simp
      then show ?thesis using h True c(1,3) assms(2) by (auto simp: inv_avail_def)
    qed
  qed
qed

subsection \<open>One trip per request\<close>

lemma svc_step_track:
  assumes "svc_step i sample now s = Some s'"
  shows "assignment s' = assignment s" and "map svc_req (services s') = map svc_req (services s)"
    and "requests s' = requests s" and "adjudicator_thread s' = adjudicator_thread s"
    and "map svc_taxi (services s') = map svc_taxi (services s)"
  using assms
  by (cases rule: svc_step_cases;
      auto simp add: fun_eq_iff assignment_def req_of_def op_defs AList.map_of_map_entry map_update
        list_update_same_conv split: option.splits)+

lemma thread_assigned:
  assumes "inv_req s" "rid \<in> set (map svc_req (services s))"
  shows "\<exists>a. assignment s rid = Some (Some a)"
proof -
  obtain i where i: "i < length (services s)" "svc_req (services s ! i) = rid"
    using assms(2) by (auto simp: in_set_conv_nth)
  then obtain r where "req_of s rid = Some r" "req_ok (svc_pc (services s ! i)) r"
    using assms(1) by (auto simp: inv_req_def inv_thread_def)
  then show ?thesis by (auto simp: assignment_def req_ok_def)
qed

lemma assigned_in_keys: "assignment s rid = Some a \<Longrightarrow> rid \<in> req_keys s"
  using req_of_None_iff [of s rid] by (auto simp: assignment_def)

lemma inv_track_submit:
  assumes rq: "inv_req s" and tr: "inv_track s"
  shows "inv_track (snd (create_client_request s c org dst now))"
proof -
  let ?n = "request_counter s + 1"
  let ?s' = "snd (create_client_request s c org dst now)"
  have fresh: "?n \<notin> req_keys s"
    using rq by (fastforce simp: inv_req_def inv_index_def)
  have asg: "assignment ?s' = (assignment s)(?n := Some None)"
    by (auto simp add: fun_eq_iff assignment_def req_of_def op_defs AList.update_conv' new_RequestObj_def)
  have none: "assignment s ?n = None"
    using fresh by (simp add: assignment_def req_of_None_iff)
  have pend: "adj_pending (adjudicator_thread ?s') = adj_pending (adjudicator_thread s)"
    by (cases "adjudicator_thread s") (auto simp add: op_defs)
  have spawn: "\<And>rid k. adjudicator_thread ?s' = ASpawn rid k \<longleftrightarrow> adjudicator_thread s = ASpawn rid k"
    by (cases "adjudicator_thread s") (auto simp add: op_defs)
  have q: "requests ?s' = requests s @ [?n]" by (auto simp add: op_defs)
  have sv: "services ?s' = services s" by (auto simp add: op_defs)
  have notin: "?n \<notin> set (requests s @ adj_pending (adjudicator_thread s))"
    using tr none by (auto simp: inv_track_def)
  show ?thesis
    unfolding inv_track_def asg pend spawn q sv
    using tr notin none by (auto simp: inv_track_def)
qed

lemma inv_track_env:
  assumes tr: "inv_track s" and "s' = start s \<or> s' = stop s"
  shows "inv_track s'"
proof -
  have asg: "assignment s' = assignment s"
    using assms(2) by (auto simp add: fun_eq_iff assignment_def req_of_def op_defs)
  have pend: "adj_pending (adjudicator_thread s') = adj_pending (adjudicator_thread s)"
    using assms(2) by (cases "adjudicator_thread s") (auto simp add: op_defs)
  have spawn: "\<And>rid k. adjudicator_thread s' = ASpawn rid k \<longleftrightarrow> adjudicator_thread s = ASpawn rid k"
    using assms(2) by (cases "adjudicator_thread s") (auto simp add: op_defs)
  have q: "requests s' = requests s" using assms(2) by (auto simp add: op_defs)
  have sv: "services s' = services s" using assms(2) by (auto simp add: op_defs)
  show ?thesis
    unfolding inv_track_def asg pend spawn q sv using tr by (simp add: inv_track_def)
qed

lemma inv_track_svc:
  assumes tr: "inv_track s" and "svc_step i sample now s = Some s'"
  shows "inv_track s'"
  unfolding inv_track_def svc_step_track [OF assms(2)]
  using tr by (simp add: inv_track_def)

lemma inv_track_adj:
  assumes rq: "inv_req s" and tr: "inv_track s" and st: "adj_step s = Some s'"
  shows "inv_track s'"
  using st
proof (cases rule: adj_step_cases)
  case (SetAssigned rid k t)
  have held: "assignment s rid = Some None" "rid \<notin> set (requests s)"
    using tr SetAssigned(1) by (auto simp: inv_track_def)
  have nothread: "rid \<notin> set (map svc_req (services s))"
    using thread_assigned [OF rq, of rid] held(1) by auto
  have asg: "assignment s' = (assignment s)(rid := Some (Some (taxi_id t)))"
    using held(1) unfolding SetAssigned(3)
    by (auto simp add: fun_eq_iff assignment_def req_of_def op_defs AList.map_of_map_entry
          split: option.splits)
  show ?thesis
    unfolding inv_track_def asg
    using tr held nothread SetAssigned(1)
    by (auto simp add: inv_track_def SetAssigned(3) op_defs)
next
  case (Spawn rid k)
  have asg: "assignment s' = assignment s"
    unfolding Spawn(2) by (auto simp add: fun_eq_iff assignment_def req_of_def op_defs)
  show ?thesis
    unfolding inv_track_def asg
    using tr Spawn(1) by (auto simp add: inv_track_def Spawn(2) op_defs)
next
  case (Claim rid k t)
  have asg: "assignment s' = assignment s"
    unfolding Claim(4) by (auto simp add: fun_eq_iff assignment_def req_of_def op_defs)
  show ?thesis
    unfolding inv_track_def asg
    using tr Claim(1) by (auto simp add: inv_track_def Claim(4) op_defs)
qed (use tr in \<open>auto simp add: inv_track_def assignment_def req_of_def\<close>)

lemma inv_track_step:
  assumes "inv_req s" "inv_track s" "step e s = Some s'"
  shows "inv_track s'"
  using assms(3)
proof (cases rule: step_cases)
  case (Submit c org dst now)
  then show ?thesis using inv_track_submit [OF assms(1,2)] by simp
next
  case Start
  then show ?thesis using inv_track_env [OF assms(2)] by simp
next
  case Stop
  then show ?thesis using inv_track_env [OF assms(2)] by simp
next
  case Adj
  then show ?thesis using inv_track_adj [OF assms(1,2)] by simp
next
  case (Svc i sample now)
  then show ?thesis using inv_track_svc [OF assms(2)] by simp
qed

lemma step_taxi_keys:
  assumes "step e s = Some s'"
  shows "map fst (taxis s') = map fst (taxis s)"
  using assms
proof (cases rule: step_cases)
  case (Submit c org dst now)
  then show ?thesis by (auto simp add: op_defs)
next
  case Start
  then show ?thesis by (auto simp add: op_defs)
next
  case Stop
  then show ?thesis by (auto simp add: op_defs)
next
  case Adj
  then show ?thesis using adj_step_frame(3) by simp
next
  case (Svc i sample now)
  from Svc(2) show ?thesis by (cases rule: svc_step_summary) simp
qed

lemma step_index_length:
  assumes "inv_req s" "step e s = Some s'"
  shows "length (requests_index s') =
         length (requests_index s) + (case e of Submit c org dst now \<Rightarrow> 1 | _ \<Rightarrow> 0)"
  using assms(2)
proof (cases rule: step_cases)
  case (Submit c org dst now)
  have "request_counter s + 1 \<notin> req_keys s"
    using assms(1) by (fastforce simp: inv_req_def inv_index_def)
  then have "request_counter s + 1 \<notin> fst ` set (requests_index s)" by (simp add: req_keys_def)
  then have "length (map fst (AList.update (request_counter s + 1)
       (new_RequestObj (request_counter s + 1) c org dst now) (requests_index s))) =
     length (map fst (requests_index s)) + 1"
    by (simp only: AList.update_keys) simp
  then show ?thesis unfolding Submit by (auto simp add: op_defs)
next
  case Start
  then show ?thesis by (auto simp add: op_defs)
next
  case Stop
  then show ?thesis by (auto simp add: op_defs)
next
  case Adj
  from Adj(2) have "length (requests_index s') = length (requests_index s)"
    by (cases rule: adj_step_cases) (auto simp add: op_defs length_map [of fst, symmetric] map_fst_map_entry simp del: length_map)
  then show ?thesis using Adj(1) by simp
next
  case (Svc i sample now)
  from Svc(2) have "length (requests_index s') = length (requests_index s)"
    by (cases rule: svc_step_cases) (auto simp add: op_defs length_map [of fst, symmetric] map_fst_map_entry simp del: length_map)
  then show ?thesis using Svc(1) by simp
qed

subsection \<open>Counting taxis and requests\<close>

lemma inv_excl_fleet: "inv_excl (fleet_system fleet)"
  by (simp add: inv_excl_def holders_def)

lemma inv_track_fleet: "inv_track (fleet_system fleet)"
  by (simp add: inv_track_def assignment_def req_of_def)

lemma taxis_foldl_register:
  "map_of (taxis (foldl register_taxi s fleet)) k = Some t \<Longrightarrow>
     t \<in> set fleet \<or> map_of (taxis s) k = Some t"
  by (induction fleet arbitrary: s)
     (fastforce simp add: register_taxi_def AList.update_conv' split: if_splits)+

lemma distinct_foldl_register:
  "distinct (map fst (taxis s)) \<Longrightarrow> distinct (map fst (taxis (foldl register_taxi s fleet)))"
  by (induction fleet arbitrary: s) (simp_all add: register_taxi_def AList.distinct_update)

lemma distinct_fleet: "distinct (map fst (taxis (fleet_system fleet)))"
  unfolding fleet_system_def
  by (rule distinct_foldl_register) (simp add: CentralSystem_init_def)

lemma inv_avail_fleet:
  assumes "\<forall>t \<in> set fleet. available t"
  shows "inv_avail (fleet_system fleet)"
  unfolding inv_avail_def
proof (intro allI impI)
  fix k t assume a: "taxi_of (fleet_system fleet) k = Some t \<and> \<not> available t"
  then have "t \<in> set fleet \<or> map_of (taxis CentralSystem_init) k = Some t"
    using taxis_foldl_register [of CentralSystem_init fleet k t]
    by (simp add: taxi_of_def fleet_system_def)
  then have "t \<in> set fleet" by (simp add: CentralSystem_init_def)
  then show "holders (fleet_system fleet) k = 1" using assms a by blast
qed

lemma inv_all_run:
  assumes "run es (fleet_system fleet) = Some s"
  shows "inv_req s" and "inv_excl s" and "inv_track s"
    and "map fst (taxis s) = map fst (taxis (fleet_system fleet))"
proof -
  let ?P = "\<lambda>s. inv_req s \<and> inv_excl s \<and> inv_track s \<and>
     map fst (taxis s) = map fst (taxis (fleet_system fleet))"
  have "?P s"
  proof (rule run_invariant [of ?P, OF _ _ assms])
    show "?P (fleet_system fleet)"
      by (simp add: inv_req_fleet inv_excl_fleet inv_track_fleet)
  next
    fix e s s' assume "?P s" "step e s = Some s'"
    then show "?P s'"
      using inv_req_step inv_excl_step inv_track_step step_taxi_keys by metis
  qed
  then show "inv_req s" and "inv_excl s" and "inv_track s"
    and "map fst (taxis s) = map fst (taxis (fleet_system fleet))"
    by simp_all
qed

lemma inv_avail_run:
  assumes "run es (fleet_system fleet) = Some s" and "\<forall>t \<in> set fleet. available t"
  shows "inv_avail s"
proof -
  let ?P = "\<lambda>s. inv_excl s \<and> inv_avail s"
  have "?P s"
  proof (rule run_invariant [of ?P, OF _ _ assms(1)])
    show "?P (fleet_system fleet)"
      by (simp add: inv_excl_fleet inv_avail_fleet [OF assms(2)])
  next
    fix e s s' assume "?P s" "step e s = Some s'"
    then show "?P s'"
      using inv_excl_step inv_avail_step by blast
  qed
  then show ?thesis by simp
qed

lemma index_length_run:
  "inv_req s0 \<Longrightarrow> run es s0 = Some s \<Longrightarrow>
     length (requests_index s) = length (requests_index s0) + count_submit es"
proof (induction es arbitrary: s0)
  case Nil
  then show ?case by (simp add: count_submit_def)
next
  case (Cons e es)
  from Cons.prems(2) obtain s1 where s1: "step e s0 = Some s1" "run es s1 = Some s"
    by (auto split: option.splits)
  have "inv_req s1" using inv_req_step [OF Cons.prems(1) s1(1)] .
  from Cons.IH [OF this s1(2)] step_index_length [OF Cons.prems(1) s1(1)]
  show ?case by (cases e) (simp_all add: count_submit_def)
qed

lemma length_filter_snd_card:
  assumes "distinct (map fst xs)"
  shows "length (filter (\<lambda>p. P (snd p)) xs) = card {k. \<exists>v. map_of xs k = Some v \<and> P v}"
proof -
  have d: "distinct (map fst (filter (\<lambda>p. P (snd p)) xs))"
    using assms by (rule distinct_map_filter)
  have "set (map fst (filter (\<lambda>p. P (snd p)) xs)) = {k. \<exists>v. map_of xs k = Some v \<and> P v}"
    using assms by (force simp: image_iff dest: map_of_SomeD)
  then have "card {k. \<exists>v. map_of xs k = Some v \<and> P v} =
      length (map fst (filter (\<lambda>p. P (snd p)) xs))"
    using distinct_card [OF d] by simp
  then show ?thesis by simp
qed

lemma count_assigned_threads:
  assumes rq: "inv_req s" and tr: "inv_track s"
  shows "count_assigned s =
         length (services s) + (if \<exists>rid k. adjudicator_thread s = ASpawn rid k then 1 else 0)"
proof -
  let ?A = "{rid. \<exists>r. map_of (requests_index s) rid = Some r \<and> assigned_taxi r \<noteq> None}"
  let ?T = "set (map svc_req (services s))"
  let ?S = "{rid. \<exists>k. adjudicator_thread s = ASpawn rid k}"
  have d: "distinct (map fst (requests_index s))" using rq by (simp add: inv_req_def inv_index_def)
  have ca: "count_assigned s = card ?A"
    unfolding count_assigned_def by (rule length_filter_snd_card [OF d])
  have sub1: "?A \<subseteq> ?T \<union> ?S"
  proof
    fix rid assume "rid \<in> ?A"
    then obtain a where "assignment s rid = Some (Some a)"
      by (auto simp: assignment_def req_of_def)
    then show "rid \<in> ?T \<union> ?S" using tr by (auto simp: inv_track_def)
  qed
  have sub2: "?T \<union> ?S \<subseteq> ?A"
  proof
    fix rid assume "rid \<in> ?T \<union> ?S"
    then show "rid \<in> ?A"
    proof
      assume "rid \<in> ?T"
      from thread_assigned [OF rq this] show ?thesis by (auto simp: assignment_def req_of_def)
    next
      assume "rid \<in> ?S"
      then show ?thesis using rq by (auto simp: inv_req_def inv_spawn_def req_of_def)
    qed
  qed
  have eq: "?A = ?T \<union> ?S" using sub1 sub2 by blast
  have disj: "?T \<inter> ?S = {}" using tr by (auto simp: inv_track_def)
  have cT: "card ?T = length (services s)"
    using tr distinct_card [of "map svc_req (services s)"] by (simp add: inv_track_def)
  have cS: "card ?S = (if \<exists>rid k. adjudicator_thread s = ASpawn rid k then 1 else 0)"
  proof (cases "\<exists>rid k. adjudicator_thread s = ASpawn rid k")
    case True
    then obtain rid k where "adjudicator_thread s = ASpawn rid k" by blast
    then have "?S = {rid}" by auto
    then show ?thesis using True by simp
  next
    case False
    then have "?S = {}" by auto
    then show ?thesis using False by simp
  qed
  have finS: "finite ?S" using cS by (cases "\<exists>rid k. adjudicator_thread s = ASpawn rid k") (auto intro: card_ge_0_finite)
  have "card (?T \<union> ?S) = card ?T + card ?S"
    by (rule card_Un_disjoint) (use disj finS in auto)
  then show ?thesis using ca eq cT cS by simp
qed

lemma distinct_map_if_filter_le_1:
  "(\<And>k. length (filter (\<lambda>x. f x = k) xs) \<le> 1) \<Longrightarrow> distinct (map f xs)"
proof (induction xs)
  case Nil
  then show ?case by simp
next
  case (Cons x xs)
  have "f x \<notin> f ` set xs"
  proof
    assume "f x \<in> f ` set xs"
    then obtain y where y: "y \<in> set xs" "f y = f x" by auto
    then have "filter (\<lambda>z. f z = f x) xs \<noteq> []" by (auto simp: filter_empty_conv)
    then have "1 \<le> length (filter (\<lambda>z. f z = f x) xs)" by (simp add: Suc_le_eq)
    then show False using Cons.prems [of "f x"] by simp
  qed
  moreover have "distinct (map f xs)"
  proof (rule Cons.IH)
    fix k
    show "length (filter (\<lambda>x. f x = k) xs) \<le> 1"
      using Cons.prems [of k] by (simp split: if_splits)
  qed
  ultimately show ?case by simp
qed

lemma mem_filter_eq: "k \<in> set xs \<longleftrightarrow> 1 \<le> length (filter (\<lambda>x. x = k) xs)"
  by (induction xs) auto

lemma holders_count:
  assumes "\<forall>th \<in> set (services s). \<not> released (svc_pc th)"
  shows "holders s k = length (filter (\<lambda>x. x = k) (map svc_taxi (services s) @ claimed_list s))"
proof -
  have "filter (active_on k) (services s) = filter (\<lambda>th. svc_taxi th = k) (services s)"
    using assms by (intro filter_cong) (auto simp: active_on_def)
  then have "length (filter (active_on k) (services s)) =
      length (filter (\<lambda>x. x = k) (map svc_taxi (services s)))"
    by (simp add: filter_map comp_def)
  then show ?thesis
    by (cases "adj_claimed (adjudicator_thread s)") (auto simp: holders_def claimed_list_def)
qed

lemma holders_distinct:
  assumes ex: "inv_excl s" and nr: "\<forall>th \<in> set (services s). \<not> released (svc_pc th)"
  shows "distinct (map svc_taxi (services s) @ claimed_list s)"
    and "set (map svc_taxi (services s) @ claimed_list s) \<subseteq> set (map fst (taxis s))"
proof -
  let ?T = "map svc_taxi (services s) @ claimed_list s"
  have le: "\<And>k. length (filter (\<lambda>x. x = k) ?T) \<le> 1"
    using ex holders_count [OF nr] by (simp add: inv_excl_def)
  have "distinct (map (\<lambda>x. x) ?T)"
    by (rule distinct_map_if_filter_le_1) (use le in simp)
  then show "distinct ?T" by simp
  show "set ?T \<subseteq> set (map fst (taxis s))"
  proof
    fix k assume "k \<in> set ?T"
    then have "1 \<le> length (filter (\<lambda>x. x = k) ?T)" by (simp only: mem_filter_eq)
    then have "1 \<le> holders s k" by (simp only: holders_count [OF nr])
    moreover have "holders s k \<le> 1" using ex by (simp add: inv_excl_def)
    ultimately have "holders s k = 1" by linarith
    then obtain t where "taxi_of s k = Some t" using ex by (auto simp: inv_excl_def)
    then show "k \<in> set (map fst (taxis s))"
      by (auto simp: taxi_of_def dest!: map_of_SomeD intro: rev_image_eqI)
  qed
qed

lemma holders_le_taxis:
  assumes ex: "inv_excl s" and nr: "\<forall>th \<in> set (services s). \<not> released (svc_pc th)"
  shows "length (services s) + length (claimed_list s) \<le> length (taxis s)"
proof -
  let ?T = "map svc_taxi (services s) @ claimed_list s"
  note h = holders_distinct [OF ex nr]
  have "length ?T = card (set ?T)" using distinct_card [OF h(1)] by simp
  also have "\<dots> \<le> card (set (map fst (taxis s)))" by (rule card_mono) (use h(2) in auto)
  also have "\<dots> \<le> length (map fst (taxis s))" by (rule card_length)
  finally show ?thesis by simp
qed

lemma all_taken:
  assumes av: "inv_avail s" and ex: "inv_excl s"
    and nr: "\<forall>th \<in> set (services s). \<not> released (svc_pc th)"
    and d: "distinct (map fst (taxis s))"
    and busy: "\<forall>kt \<in> set (taxis s). \<not> available (snd kt)"
    and idle: "adj_claimed (adjudicator_thread s) = None"
  shows "length (services s) = length (taxis s)"
proof -
  have "set (map fst (taxis s)) \<subseteq> set (map svc_taxi (services s))"
  proof
    fix k assume "k \<in> set (map fst (taxis s))"
    then obtain t where kt: "(k, t) \<in> set (taxis s)" by auto
    then have "taxi_of s k = Some t" using d by (simp add: taxi_of_def)
    moreover have "\<not> available t" using busy kt by auto
    ultimately have "holders s k = 1" using av by (auto simp: inv_avail_def)
    then have "1 \<le> length (filter (\<lambda>x. x = k) (map svc_taxi (services s) @ claimed_list s))"
      by (simp only: holders_count [OF nr])
    then have "k \<in> set (map svc_taxi (services s) @ claimed_list s)"
      by (simp only: mem_filter_eq)
    then show "k \<in> set (map svc_taxi (services s))"
      using idle by (simp add: claimed_list_def)
  qed
  then have "card (set (map fst (taxis s))) \<le> card (set (map svc_taxi (services s)))"
    by (intro card_mono) auto
  also have "\<dots> \<le> length (map svc_taxi (services s))" by (rule card_length)
  finally have "length (taxis s) \<le> length (services s)"
    using distinct_card [OF d] by simp
  moreover have "length (services s) \<le> length (taxis s)"
    using holders_le_taxis [OF ex nr] by simp
  ultimately show ?thesis by simp
qed

lemma pending_or_assigned:
  assumes rq: "inv_req s"
  shows "count_assigned s + count_pending s = length (requests_index s)"
proof -
  have d: "distinct (map fst (requests_index s))" using rq by (simp add: inv_req_def inv_index_def)
  have "filter (\<lambda>p. is_pending (snd p)) (requests_index s) =
        filter (\<lambda>p. \<not> (assigned_taxi (snd p) \<noteq> None)) (requests_index s)"
  proof (intro filter_cong refl)
    fix p assume "p \<in> set (requests_index s)"
    then have "(fst p, snd p) \<in> set (requests_index s)" by simp
    then have "req_of s (fst p) = Some (snd p)"
      unfolding req_of_def by (simp only: map_of_eq_Some_iff [OF d])
    then have "completed (snd p) \<longrightarrow> assigned_taxi (snd p) \<noteq> None"
      using rq by (auto simp: inv_req_def inv_completed_def)
    then show "is_pending (snd p) = (\<not> (assigned_taxi (snd p) \<noteq> None))"
      by (auto simp: is_pending_def)
  qed
  then show ?thesis
    unfolding count_assigned_def count_pending_def
    using sum_length_filter_compl [of "\<lambda>p. assigned_taxi (snd p) \<noteq> None" "requests_index s"]
    by simp
qed

subsection \<open>The places of a request\<close>

lemma svc_step_ids:
  assumes "svc_step i sample now s = Some s'" "taxi_of s' k = Some t'"
  shows "\<exists>t. taxi_of s k = Some t \<and> taxi_id t' = taxi_id t"
  using assms
  by (cases rule: svc_step_cases;
      auto simp add: op_defs taxi_of_def AList.map_of_map_entry split: if_splits option.splits)+

lemma adj_step_ids:
  assumes "adj_step s = Some s'" "taxi_of s' k = Some t'"
  shows "\<exists>t. taxi_of s k = Some t \<and> taxi_id t' = taxi_id t"
  using assms
  by (cases rule: adj_step_cases;
      auto simp add: op_defs taxi_of_def AList.map_of_map_entry split: if_splits option.splits)+

lemma inv_ids_step:
  assumes "inv_ids s" "step e s = Some s'"
  shows "inv_ids s'"
  using assms(2)
proof (cases rule: step_cases)
  case (Submit c org dst now)
  then show ?thesis using assms(1) by (auto simp add: inv_ids_def taxi_of_def op_defs)
next
  case Start
  then show ?thesis using assms(1) by (auto simp add: inv_ids_def taxi_of_def op_defs)
next
  case Stop
  then show ?thesis using assms(1) by (auto simp add: inv_ids_def taxi_of_def op_defs)
next
  case Adj
  then show ?thesis using assms(1) adj_step_ids [OF Adj(2)] unfolding inv_ids_def by metis
next
  case (Svc i sample now)
  then show ?thesis using assms(1) svc_step_ids [OF Svc(2)] unfolding inv_ids_def by metis
qed

lemma ids_foldl_register:
  "map_of (taxis (foldl register_taxi s fleet)) k = Some t \<Longrightarrow>
     taxi_id t = k \<or> map_of (taxis s) k = Some t"
  by (induction fleet arbitrary: s)
     (fastforce simp add: register_taxi_def AList.update_conv' split: if_splits)+

lemma inv_ids_fleet: "inv_ids (fleet_system fleet)"
  using ids_foldl_register [of CentralSystem_init fleet]
  by (auto simp add: inv_ids_def taxi_of_def fleet_system_def CentralSystem_init_def)

text \<open>What a step of a trip thread does to the places of the threads and to the
  completed flags.\<close>

lemma svc_step_places:
  assumes "svc_step i sample now s = Some s'"
  obtains pc' where
    "i < length (services s)"
    "services s' = (services s)[i := (services s ! i)\<lparr>svc_pc := pc'\<rparr>]"
    "appended pc' \<longleftrightarrow> appended (svc_pc (services s ! i)) \<or> svc_pc (services s ! i) = SAppend"
    "completed_set pc' \<longleftrightarrow>
       completed_set (svc_pc (services s ! i)) \<or> svc_pc (services s ! i) = SSetCompleted"
    "completed_services s' =
       completed_services s @ (if svc_pc (services s ! i) = SAppend then [svc_req (services s ! i)] else [])"
  using assms
  by (cases rule: svc_step_cases) (auto simp add: op_defs)

lemma svc_step_flags:
  assumes "svc_step i sample now s = Some s'" "req_of s' rid = Some r'" "completed r'"
  shows "(\<exists>r. req_of s rid = Some r \<and> completed r) \<or>
         (rid = svc_req (services s ! i) \<and> svc_pc (services s ! i) = SSetCompleted)"
  using assms
  by (cases rule: svc_step_cases;
      auto simp add: op_defs req_of_def AList.map_of_map_entry split: if_splits option.splits)+

lemma adj_step_flags:
  assumes "adj_step s = Some s'" "req_of s' rid = Some r'" "completed r'"
  shows "\<exists>r. req_of s rid = Some r \<and> completed r"
  using assms
  by (cases rule: adj_step_cases;
      auto simp add: op_defs req_of_def AList.map_of_map_entry split: if_splits option.splits)+

subsection \<open>The taxi of a trip is the taxi of its request\<close>

lemma inv_ref_submit:
  assumes rq: "inv_req s" and rf: "inv_ref s"
  shows "inv_ref (snd (create_client_request s c org dst now))"
proof -
  let ?n = "request_counter s + 1"
  let ?s' = "snd (create_client_request s c org dst now)"
  have fresh: "?n \<notin> req_keys s"
    using rq by (fastforce simp: inv_req_def inv_index_def)
  have asg: "assignment ?s' = (assignment s)(?n := Some None)"
    by (auto simp add: fun_eq_iff assignment_def req_of_def op_defs AList.update_conv' new_RequestObj_def)
  have none: "assignment s ?n = None"
    using fresh by (simp add: assignment_def req_of_None_iff)
  have spawn: "\<And>rid k. adjudicator_thread ?s' = ASpawn rid k \<longleftrightarrow> adjudicator_thread s = ASpawn rid k"
    by (cases "adjudicator_thread s") (auto simp add: op_defs)
  have sv: "services ?s' = services s" by (auto simp add: op_defs)
  show ?thesis
    unfolding inv_ref_def asg spawn sv
    using rf none by (auto simp: inv_ref_def)
qed

lemma inv_ref_env:
  assumes rf: "inv_ref s" and "s' = start s \<or> s' = stop s"
  shows "inv_ref s'"
proof -
  have asg: "assignment s' = assignment s"
    using assms(2) by (auto simp add: fun_eq_iff assignment_def req_of_def op_defs)
  have spawn: "\<And>rid k. adjudicator_thread s' = ASpawn rid k \<longleftrightarrow> adjudicator_thread s = ASpawn rid k"
    using assms(2) by (cases "adjudicator_thread s") (auto simp add: op_defs)
  have sv: "services s' = services s" using assms(2) by (auto simp add: op_defs)
  show ?thesis
    unfolding inv_ref_def asg spawn sv using rf by (simp add: inv_ref_def)
qed

lemma inv_ref_svc:
  assumes rf: "inv_ref s" and st: "svc_step i sample now s = Some s'"
  shows "inv_ref s'"
proof -
  note tr = svc_step_track [OF st]
  have len: "length (services s') = length (services s)"
    using tr(2) by (metis length_map)
  have rq: "svc_req (services s' ! j) = svc_req (services s ! j)" if "j < length (services s)" for j
    using tr(2) that len by (metis nth_map)
  have tx: "svc_taxi (services s' ! j) = svc_taxi (services s ! j)" if "j < length (services s)" for j
    using tr(5) that len by (metis nth_map)
  show ?thesis
    unfolding inv_ref_def tr(1) tr(4) len
    using rf rq tx by (simp add: inv_ref_def)
qed

lemma inv_ref_adj:
  assumes rq: "inv_req s" and tr: "inv_track s" and ids: "inv_ids s" and rf: "inv_ref s"
    and st: "adj_step s = Some s'"
  shows "inv_ref s'"
  using st
proof (cases rule: adj_step_cases)
  case (SetAssigned rid k t)
  have held: "assignment s rid = Some None"
    using tr SetAssigned(1) by (auto simp: inv_track_def)
  have nothread: "\<forall>i < length (services s). svc_req (services s ! i) \<noteq> rid"
  proof (intro allI impI notI)
    fix i assume "i < length (services s)" "svc_req (services s ! i) = rid"
    then have "rid \<in> set (map svc_req (services s))" using nth_mem by force
    then show False using thread_assigned [OF rq, of rid] held by auto
  qed
  have asg: "assignment s' = (assignment s)(rid := Some (Some (taxi_id t)))"
    using held unfolding SetAssigned(3)
    by (auto simp add: fun_eq_iff assignment_def req_of_def op_defs AList.map_of_map_entry
          split: option.splits)
  have id: "taxi_id t = k" using ids SetAssigned(2) by (simp add: inv_ids_def)
  show ?thesis
    unfolding inv_ref_def asg
    using rf nothread id by (auto simp add: inv_ref_def SetAssigned(3) op_defs)
next
  case (Spawn rid k)
  have asg: "assignment s' = assignment s"
    unfolding Spawn(2) by (auto simp add: fun_eq_iff assignment_def req_of_def op_defs)
  show ?thesis
    unfolding inv_ref_def asg
    using rf Spawn(1) by (auto simp add: inv_ref_def Spawn(2) op_defs nth_append)
next
  case (Claim rid k t)
  have asg: "assignment s' = assignment s"
    unfolding Claim(4) by (auto simp add: fun_eq_iff assignment_def req_of_def op_defs)
  show ?thesis
    unfolding inv_ref_def asg
    using rf Claim(1) by (auto simp add: inv_ref_def Claim(4) op_defs)
qed (use rf in \<open>auto simp add: inv_ref_def assignment_def req_of_def\<close>)

subsection \<open>An unassigned request waits\<close>

lemma inv_wait_submit:
  assumes rq: "inv_req s" and w: "inv_wait s"
  shows "inv_wait (snd (create_client_request s c org dst now))"
proof -
  let ?n = "request_counter s + 1"
  let ?s' = "snd (create_client_request s c org dst now)"
  have asg: "assignment ?s' = (assignment s)(?n := Some None)"
    by (auto simp add: fun_eq_iff assignment_def req_of_def op_defs AList.update_conv' new_RequestObj_def)
  have pend: "adj_pending (adjudicator_thread ?s') = adj_pending (adjudicator_thread s)"
    by (cases "adjudicator_thread s") (auto simp add: op_defs)
  have q: "requests ?s' = requests s @ [?n]" by (auto simp add: op_defs)
  show ?thesis
    unfolding inv_wait_def asg pend q
    using w by (auto simp: inv_wait_def)
qed

lemma inv_wait_env:
  assumes w: "inv_wait s" and "s' = start s \<or> s' = stop s"
  shows "inv_wait s'"
proof -
  have asg: "assignment s' = assignment s"
    using assms(2) by (auto simp add: fun_eq_iff assignment_def req_of_def op_defs)
  have pend: "adj_pending (adjudicator_thread s') = adj_pending (adjudicator_thread s)"
    using assms(2) by (cases "adjudicator_thread s") (auto simp add: op_defs)
  have q: "requests s' = requests s" using assms(2) by (auto simp add: op_defs)
  show ?thesis
    unfolding inv_wait_def asg pend q using w by (simp add: inv_wait_def)
qed

lemma inv_wait_svc:
  assumes w: "inv_wait s" and st: "svc_step i sample now s = Some s'"
  shows "inv_wait s'"
  unfolding inv_wait_def svc_step_track [OF st]
  using w by (simp add: inv_wait_def)

lemma inv_wait_adj:
  assumes w: "inv_wait s" and st: "adj_step s = Some s'"
  shows "inv_wait s'"
  using st
proof (cases rule: adj_step_cases)
  case (SetAssigned rid k t)
  have asg: "\<And>x. x \<noteq> rid \<Longrightarrow> assignment s' x = assignment s x"
    and new: "assignment s' rid \<noteq> Some None"
    unfolding SetAssigned(3)
    by (auto simp add: assignment_def req_of_def op_defs AList.map_of_map_entry
          split: option.splits)
  show ?thesis
    unfolding inv_wait_def
  proof (intro allI impI)
    fix x assume a: "assignment s' x = Some None"
    then have ne: "x \<noteq> rid" using new by auto
    then have "assignment s x = Some None" using asg a by simp
    then have "x \<in> set (requests s @ adj_pending (adjudicator_thread s))"
      using w by (simp add: inv_wait_def)
    then show "x \<in> set (requests s' @ adj_pending (adjudicator_thread s'))"
      using ne by (simp add: SetAssigned(1,3) op_defs)
  qed
next
  case (Spawn rid k)
  have asg: "assignment s' = assignment s"
    unfolding Spawn(2) by (auto simp add: fun_eq_iff assignment_def req_of_def op_defs)
  show ?thesis
    unfolding inv_wait_def asg
    using w Spawn(1) by (auto simp add: inv_wait_def Spawn(2) op_defs)
next
  case (Claim rid k t)
  have asg: "assignment s' = assignment s"
    unfolding Claim(4) by (auto simp add: fun_eq_iff assignment_def req_of_def op_defs)
  show ?thesis
    unfolding inv_wait_def asg
    using w Claim(1) by (auto simp add: inv_wait_def Claim(4) op_defs)
next
  case (Release rid b)
  have asg: "assignment s' = assignment s"
    unfolding Release(2) by (auto simp add: fun_eq_iff assignment_def req_of_def)
  show ?thesis
    unfolding inv_wait_def asg
    using w Release(1) by (auto simp add: inv_wait_def Release(2))
qed (use w in \<open>auto simp add: inv_wait_def assignment_def req_of_def\<close>)

subsection \<open>The completed list and the completed flag\<close>

lemma inv_list_svc:
  assumes tr: "inv_track s" and l: "inv_list s" and st: "svc_step i sample now s = Some s'"
  shows "inv_list s'"
  using st
proof (cases rule: svc_step_places)
  case (1 pc')
  have d: "distinct (map svc_req (services s))" using tr by (simp add: inv_track_def)
  have uniq: "j = i" if "j < length (services s)" "svc_req (services s ! j) = svc_req (services s ! i)" for j
    using d that 1(1) by (metis distinct_conv_nth length_map nth_map)
  show ?thesis
    unfolding inv_list_def
  proof (intro allI)
    fix rid
    have old: "rid \<in> set (completed_services s) \<longleftrightarrow>
        (\<exists>j < length (services s). svc_req (services s ! j) = rid \<and> appended (svc_pc (services s ! j)))"
      using l by (simp add: inv_list_def)
    show "rid \<in> set (completed_services s') \<longleftrightarrow>
        (\<exists>j < length (services s'). svc_req (services s' ! j) = rid \<and> appended (svc_pc (services s' ! j)))"
    proof (cases "svc_pc (services s ! i) = SAppend")
      case True
      have "rid \<in> set (completed_services s') \<longleftrightarrow>
          rid = svc_req (services s ! i) \<or>
          (\<exists>j < length (services s). svc_req (services s ! j) = rid \<and> appended (svc_pc (services s ! j)))"
        using old 1(5) True by auto
      also have "\<dots> \<longleftrightarrow>
          (\<exists>j < length (services s'). svc_req (services s' ! j) = rid \<and> appended (svc_pc (services s' ! j)))"
        using 1(1,3) True unfolding 1(2)
        by (auto simp add: nth_list_update)
      finally show ?thesis .
    next
      case False
      have "rid \<in> set (completed_services s') \<longleftrightarrow>
          (\<exists>j < length (services s). svc_req (services s ! j) = rid \<and> appended (svc_pc (services s ! j)))"
        using old 1(5) False by auto
      also have "\<dots> \<longleftrightarrow>
          (\<exists>j < length (services s'). svc_req (services s' ! j) = rid \<and> appended (svc_pc (services s' ! j)))"
        using 1(1,3) False unfolding 1(2)
        by (auto simp add: nth_list_update)
      finally show ?thesis .
    qed
  qed
qed

lemma inv_list_adj:
  assumes l: "inv_list s" and st: "adj_step s = Some s'"
  shows "inv_list s'"
proof -
  note f = adj_step_frame [OF st]
  from f(4) show ?thesis
  proof
    assume "services s' = services s"
    then show ?thesis using l f(1) by (simp add: inv_list_def)
  next
    assume "\<exists>rid k. adjudicator_thread s = ASpawn rid k \<and>
            services s' = services s @ [\<lparr>svc_req = rid, svc_taxi = k, svc_pc = SStart\<rparr>]"
    then obtain rid k where sv: "services s' = services s @ [\<lparr>svc_req = rid, svc_taxi = k, svc_pc = SStart\<rparr>]"
      by blast
    show ?thesis
      unfolding inv_list_def f(1) sv
      using l by (auto simp add: inv_list_def nth_append less_Suc_eq)
  qed
qed

lemma inv_flag_svc:
  assumes fl: "inv_flag s" and st: "svc_step i sample now s = Some s'"
  shows "inv_flag s'"
  using st
proof (cases rule: svc_step_places)
  case (1 pc')
  show ?thesis
    unfolding inv_flag_def
  proof (intro allI impI)
    fix rid r' assume a: "req_of s' rid = Some r' \<and> completed r'"
    from svc_step_flags [OF st, of rid r'] a
    consider (old) r where "req_of s rid = Some r" "completed r"
      | (new) "rid = svc_req (services s ! i)" "svc_pc (services s ! i) = SSetCompleted"
      by blast
    then show "\<exists>j < length (services s'). svc_req (services s' ! j) = rid \<and>
        completed_set (svc_pc (services s' ! j))"
    proof cases
      case old
      then obtain j where j: "j < length (services s)" "svc_req (services s ! j) = rid"
          "completed_set (svc_pc (services s ! j))"
        using fl unfolding inv_flag_def by blast
      show ?thesis
        using j 1(1,4) unfolding 1(2)
        by (intro exI [of _ j]) (auto simp add: nth_list_update)
    next
      case new
      show ?thesis
        using new 1(1,4) unfolding 1(2)
        by (intro exI [of _ i]) (auto simp add: nth_list_update)
    qed
  qed
qed

lemma inv_flag_adj:
  assumes fl: "inv_flag s" and st: "adj_step s = Some s'"
  shows "inv_flag s'"
  unfolding inv_flag_def
proof (intro allI impI)
  fix rid r' assume a: "req_of s' rid = Some r' \<and> completed r'"
  then obtain r where "req_of s rid = Some r" "completed r"
    using adj_step_flags [OF st, of rid r'] by blast
  then obtain j where j: "j < length (services s)" "svc_req (services s ! j) = rid"
      "completed_set (svc_pc (services s ! j))"
    using fl unfolding inv_flag_def by blast
  note f = adj_step_frame [OF st]
  from f(4) show "\<exists>j < length (services s'). svc_req (services s' ! j) = rid \<and>
        completed_set (svc_pc (services s' ! j))"
  proof
    assume "services s' = services s"
    then show ?thesis using j by auto
  next
    assume "\<exists>rid k. adjudicator_thread s = ASpawn rid k \<and>
            services s' = services s @ [\<lparr>svc_req = rid, svc_taxi = k, svc_pc = SStart\<rparr>]"
    then obtain rid' k where sv: "services s' = services s @ [\<lparr>svc_req = rid', svc_taxi = k, svc_pc = SStart\<rparr>]"
      by blast
    show ?thesis
      unfolding sv using j by (intro exI [of _ j]) (auto simp add: nth_append)
  qed
qed

lemma inv_place_step:
  assumes rq: "inv_req s" and tr: "inv_track s" and pl: "inv_place s" and st: "step e s = Some s'"
  shows "inv_place s'"
proof -
  have ids: "inv_ids s" and rf: "inv_ref s" and w: "inv_wait s" and l: "inv_list s" and fl: "inv_flag s"
    using pl by (simp_all add: inv_place_def)
  have "inv_ids s'" using inv_ids_step [OF ids st] .
  moreover have "inv_ref s' \<and> inv_wait s' \<and> inv_list s' \<and> inv_flag s'"
    using st
  proof (cases rule: step_cases)
    case (Submit c org dst now)
    have fresh: "request_counter s + 1 \<notin> req_keys s"
      using rq by (fastforce simp: inv_req_def inv_index_def)
    have "inv_list s'" using l unfolding Submit(2) by (simp add: inv_list_def op_defs)
    moreover have "inv_flag s'"
      using fl fresh unfolding Submit(2)
      by (auto simp add: inv_flag_def req_of_def op_defs AList.update_conv' new_RequestObj_def)
    ultimately show ?thesis
      using inv_ref_submit [OF rq rf] inv_wait_submit [OF rq w] Submit(2) by simp
  next
    case Start
    have "inv_list s'" using l unfolding Start(2) by (simp add: inv_list_def op_defs)
    moreover have "inv_flag s'"
      using fl unfolding Start(2) by (auto simp add: inv_flag_def req_of_def op_defs)
    ultimately show ?thesis
      using inv_ref_env [OF rf] inv_wait_env [OF w] Start(2) by simp
  next
    case Stop
    have "inv_list s'" using l unfolding Stop(2) by (simp add: inv_list_def op_defs)
    moreover have "inv_flag s'"
      using fl unfolding Stop(2) by (auto simp add: inv_flag_def req_of_def op_defs)
    ultimately show ?thesis
      using inv_ref_env [OF rf] inv_wait_env [OF w] Stop(2) by simp
  next
    case Adj
    show ?thesis
      using inv_ref_adj [OF rq tr ids rf Adj(2)] inv_wait_adj [OF w Adj(2)]
        inv_list_adj [OF l Adj(2)] inv_flag_adj [OF fl Adj(2)] by simp
  next
    case (Svc i sample now)
    show ?thesis
      using inv_ref_svc [OF rf Svc(2)] inv_wait_svc [OF w Svc(2)]
        inv_list_svc [OF tr l Svc(2)] inv_flag_svc [OF fl Svc(2)] by simp
  qed
  ultimately show ?thesis by (simp add: inv_place_def)
qed

lemma inv_place_fleet: "inv_place (fleet_system fleet)"
  by (simp add: inv_place_def inv_ids_fleet inv_ref_def inv_wait_def inv_list_def inv_flag_def
        assignment_def req_of_def)

lemma inv_place_run:
  assumes "run es (fleet_system fleet) = Some s"
  shows "inv_place s"
proof -
  let ?P = "\<lambda>s. inv_req s \<and> inv_track s \<and> inv_place s"
  have "?P s"
  proof (rule run_invariant [of ?P, OF _ _ assms])
    show "?P (fleet_system fleet)"
      by (simp add: inv_req_fleet inv_track_fleet inv_place_fleet)
  next
    fix e s s' assume "?P s" "step e s = Some s'"
    then show "?P s'"
      using inv_req_step inv_track_step inv_place_step by metis
  qed
  then show ?thesis by simp
qed



subsection \<open>The states of a request\<close>

lemma thread_of_request:
  assumes "rid \<in> set (map svc_req (services s))"
  obtains i where "i < length (services s)" "svc_req (services s ! i) = rid"
  using assms by (auto simp: in_set_conv_nth)


lemma in_filter_threads:
  "rid \<in> set (map svc_req (filter P (services s))) \<longleftrightarrow>
     (\<exists>i < length (services s). svc_req (services s ! i) = rid \<and> P (services s ! i))"
  by (auto simp: in_set_conv_nth image_iff)




lemma holding_iff:
  "holding s rid \<longleftrightarrow>
     \<not> (\<exists>i < length (services s). svc_req (services s ! i) = rid \<and> released (svc_pc (services s ! i)))"
  unfolding holding_def in_filter_threads by simp


lemma appended_completed: "appended pc \<Longrightarrow> completed_set pc"
  by (cases pc) simp_all





subsection \<open>A taxi serves one trip at a time\<close>

lemma dist_00_01: "math_dist (0, 0) (0, 1) = 1"
  by (simp add: math_dist_def)

lemma run_contention_prefix:
  "\<exists>s. run contention_prefix one_taxi = Some s \<and>
       services s = [\<lparr>svc_req = 1, svc_taxi = 1, svc_pc = SStart\<rparr>] \<and>
       taxis s = [(1, (new_Taxi 1 ''TAXI-101'' (0, 0))\<lparr>available := False\<rparr>)] \<and>
       adjudicator_thread s = ATop \<and> requests s = [2] \<and>
       map (\<lambda>p. (fst p, assigned_taxi (snd p), completed (snd p))) (requests_index s) =
         [(1, Some 1, False), (2, None, False)]"
  unfolding contention_prefix_def one_taxi_eq
  by (simp add: eval_nat_numeral eval_defs dist_00_01 dist_01)

lemma run_overlap:
  "\<exists>s. run overlap_events one_taxi = Some s \<and>
       services s = [\<lparr>svc_req = 1, svc_taxi = 1, svc_pc = SSetFare\<rparr>,
                     \<lparr>svc_req = 2, svc_taxi = 1, svc_pc = SStart\<rparr>] \<and>
       adjudicator_thread s = ATop \<and> requests s = [] \<and>
       map (\<lambda>p. (fst p, assigned_taxi (snd p), completed (snd p))) (requests_index s) =
         [(1, Some 1, False), (2, Some 1, False)]"
  unfolding overlap_events_def contention_prefix_def one_taxi_eq
  by (simp add: eval_nat_numeral eval_defs dist_00_01 dist_01)

lemma two_in_filter:
  assumes "i < length xs" "j < length xs" "i \<noteq> j" "P (xs ! i)" "P (xs ! j)"
  shows "2 \<le> length (filter P xs)"
proof -
  have "{i, j} \<subseteq> {n. n < length xs \<and> P (xs ! n)}" using assms by auto
  moreover have "finite {n. n < length xs \<and> P (xs ! n)}" by simp
  ultimately have "card {i, j} \<le> card {n. n < length xs \<and> P (xs ! n)}"
    by (rule card_mono [rotated])
  then show ?thesis using assms(3) by (simp add: length_filter_conv_card)
qed

lemma one_in_filter:
  assumes "i < length xs" "P (xs ! i)"
  shows "1 \<le> length (filter P xs)"
proof -
  have "xs ! i \<in> set (filter P xs)" using assms by simp
  then have "filter P xs \<noteq> []" by (auto simp: filter_empty_conv)
  then show ?thesis by (simp add: Suc_le_eq)
qed

lemma holder_of_request:
  assumes tr: "inv_track s" and pl: "inv_place s"
    and a: "assignment s rid = Some (Some k)" and h: "holding s rid"
  shows "(\<exists>i < length (services s). svc_req (services s ! i) = rid \<and> active_on k (services s ! i)) \<or>
         adjudicator_thread s = ASpawn rid k"
proof -
  have rf: "inv_ref s" using pl by (simp add: inv_place_def)
  from tr a have "rid \<in> set (map svc_req (services s)) \<or> (\<exists>k. adjudicator_thread s = ASpawn rid k)"
    unfolding inv_track_def by blast
  then show ?thesis
  proof
    assume "rid \<in> set (map svc_req (services s))"
    then obtain i where i: "i < length (services s)" "svc_req (services s ! i) = rid"
      by (rule thread_of_request)
    have "assignment s rid = Some (Some (svc_taxi (services s ! i)))"
      using rf i by (auto simp: inv_ref_def)
    then have "svc_taxi (services s ! i) = k" using a by simp
    moreover have "\<not> released (svc_pc (services s ! i))"
      using h i unfolding holding_iff by blast
    ultimately show ?thesis using i by (auto simp: active_on_def)
  next
    assume "\<exists>k. adjudicator_thread s = ASpawn rid k"
    then obtain k' where k': "adjudicator_thread s = ASpawn rid k'" by blast
    then have "assignment s rid = Some (Some k')" using rf by (auto simp: inv_ref_def)
    then show ?thesis using a k' by simp
  qed
qed

lemma one_holding_request:
  assumes ex: "inv_excl s" and tr: "inv_track s" and pl: "inv_place s"
    and a1: "assignment s r1 = Some (Some k)" and a2: "assignment s r2 = Some (Some k)"
    and h1: "holding s r1" and h2: "holding s r2"
  shows "r1 = r2"
proof (rule ccontr)
  assume ne: "r1 \<noteq> r2"
  have le: "holders s k \<le> 1" using ex by (simp add: inv_excl_def)
  note w1 = holder_of_request [OF tr pl a1 h1]
  note w2 = holder_of_request [OF tr pl a2 h2]
  from w1 show False
  proof
    assume "\<exists>i < length (services s). svc_req (services s ! i) = r1 \<and> active_on k (services s ! i)"
    then obtain i where i: "i < length (services s)" "svc_req (services s ! i) = r1"
        "active_on k (services s ! i)" by blast
    from w2 show False
    proof
      assume "\<exists>j < length (services s). svc_req (services s ! j) = r2 \<and> active_on k (services s ! j)"
      then obtain j where j: "j < length (services s)" "svc_req (services s ! j) = r2"
          "active_on k (services s ! j)" by blast
      have "i \<noteq> j" using i(2) j(2) ne by auto
      then have "2 \<le> length (filter (active_on k) (services s))"
        using two_in_filter [of i "services s" j "active_on k", OF i(1) j(1) _ i(3) j(3)] by simp
      then show False using le by (simp add: holders_def)
    next
      assume sp: "adjudicator_thread s = ASpawn r2 k"
      have "1 \<le> length (filter (active_on k) (services s))"
        using one_in_filter [of i "services s" "active_on k", OF i(1) i(3)] .
      then show False using le sp by (simp add: holders_def)
    qed
  next
    assume sp: "adjudicator_thread s = ASpawn r1 k"
    from w2 show False
    proof
      assume "\<exists>j < length (services s). svc_req (services s ! j) = r2 \<and> active_on k (services s ! j)"
      then obtain j where j: "j < length (services s)" "active_on k (services s ! j)" by blast
      have "1 \<le> length (filter (active_on k) (services s))"
        using one_in_filter [of j "services s" "active_on k", OF j(1) j(2)] .
      then show False using le sp by (simp add: holders_def)
    next
      assume "adjudicator_thread s = ASpawn r2 k"
      then show False using sp ne by simp
    qed
  qed
qed

lemma in_progress_refs_map:
  "in_progress_refs s =
     map (\<lambda>q. (fst q, fst (snd q)))
       (filter (\<lambda>q. fst (snd q) \<noteq> None \<and> \<not> snd (snd q))
          (map (\<lambda>p. (fst p, assigned_taxi (snd p), completed (snd p))) (requests_index s)))"
  by (simp add: in_progress_refs_def is_in_progress_def filter_map comp_def)

text \<open>
  Claim C1, as it stands, fails: with one taxi and two requests, in the execution
  \<open>overlap_events\<close> the trip of request 1 has run lines 205 to 208, which free the taxi,
  and not yet line 211, and the adjudicator has matched request 2 with the same taxi and
  started its trip. Both requests are in progress (a taxi recorded, not completed) and
  both reference taxi 1.
\<close>

theorem two_in_progress_one_taxi_counterexample:
  "map_option in_progress_refs (run overlap_events (fleet_system [new_Taxi 1 ''TAXI-101'' (0, 0)])) =
     Some [(1, Some 1), (2, Some 1)] \<and>
   map_option trip_places (run overlap_events (fleet_system [new_Taxi 1 ''TAXI-101'' (0, 0)])) =
     Some [(1, 1, SSetFare), (2, 1, SStart)]"
proof -
  obtain s where s: "run overlap_events one_taxi = Some s"
    "services s = [\<lparr>svc_req = 1, svc_taxi = 1, svc_pc = SSetFare\<rparr>,
                   \<lparr>svc_req = 2, svc_taxi = 1, svc_pc = SStart\<rparr>]"
    "map (\<lambda>p. (fst p, assigned_taxi (snd p), completed (snd p))) (requests_index s) =
         [(1, Some 1, False), (2, Some 1, False)]"
    using run_overlap by (elim exE conjE) auto
  have a: "in_progress_refs s = [(1, Some 1), (2, Some 1)]"
    unfolding in_progress_refs_map s(3) by simp
  have b: "trip_places s = [(1, 1, SSetFare), (2, 1, SStart)]"
    by (simp add: trip_places_def s(2))
  show ?thesis using s(1) a b by (simp add: one_taxi_def)
qed

text \<open>
  Claim C1, amended. In every state of every execution a taxi is referenced by at most
  one request whose trip has not yet run lines 205 to 208, and it has at most one holder
  (such a trip, or the trip the adjudicator is starting); a taxi with a holder is
  unavailable, and the claim of \<^verbatim>\<open>_assign_taxi\<close> on it fails for every request. When
  the taxis of the fleet are free at the start, then as long as no trip has run lines 205
  to 208 the trips hold pairwise distinct taxis, at most as many requests are assigned as
  there are taxis, every submitted request is either assigned or pending, and once every
  taxi is unavailable and the adjudicator is not between lines 178 and 180 the assigned
  requests are as many as the taxis and the others are pending.
\<close>

theorem taxi_held_by_one_trip:
  assumes "run es (fleet_system fleet) = Some s"
  shows "(\<forall>k r1 r2 q1 q2.
            req_of s r1 = Some q1 \<and> req_of s r2 = Some q2 \<and>
            assigned_taxi q1 = Some k \<and> assigned_taxi q2 = Some k \<and>
            holding s r1 \<and> holding s r2 \<longrightarrow> r1 = r2) \<and>
         (\<forall>k. holders s k \<le> 1 \<and>
            (holders s k = 1 \<longrightarrow>
               (\<exists>t. taxi_of s k = Some t \<and> \<not> available t) \<and>
               (\<forall>rid. adj_step (s\<lparr>adjudicator_thread := AClaim rid k\<rparr>) =
                         Some (s\<lparr>adjudicator_thread := ARelease rid False\<rparr>)))) \<and>
         map fst (taxis s) = map fst (taxis (fleet_system fleet)) \<and>
         ((\<forall>t \<in> set fleet. available t) \<and> (\<forall>th \<in> set (services s). \<not> released (svc_pc th)) \<longrightarrow>
            distinct (map svc_taxi (services s)) \<and>
            count_assigned s \<le> length (taxis s) \<and>
            count_assigned s + count_pending s = count_submit es \<and>
            ((\<forall>kt \<in> set (taxis s). \<not> available (snd kt)) \<and>
             adj_claimed (adjudicator_thread s) = None \<longrightarrow>
               count_assigned s = length (taxis s) \<and>
               count_pending s + length (taxis s) = count_submit es))"
proof -
  note iv = inv_all_run [OF assms]
  note pl = inv_place_run [OF assms]
  have refs: "r1 = r2"
    if "req_of s r1 = Some q1 \<and> req_of s r2 = Some q2 \<and>
        assigned_taxi q1 = Some k \<and> assigned_taxi q2 = Some k \<and>
        holding s r1 \<and> holding s r2" for k r1 r2 q1 q2
  proof -
    have "assignment s r1 = Some (Some k)" "assignment s r2 = Some (Some k)"
      using that by (simp_all add: assignment_def)
    then show ?thesis
      using one_holding_request [OF iv(2) iv(3) pl] that by blast
  qed
  have one: "holders s k \<le> 1" for k using iv(2) by (simp add: inv_excl_def)
  have busy: "(\<exists>t. taxi_of s k = Some t \<and> \<not> available t) \<and>
      (\<forall>rid. adj_step (s\<lparr>adjudicator_thread := AClaim rid k\<rparr>) =
                Some (s\<lparr>adjudicator_thread := ARelease rid False\<rparr>))"
    if h1: "holders s k = 1" for k
  proof -
    have "holders s k = 1 \<longrightarrow> (\<exists>t. taxi_of s k = Some t \<and> \<not> available t)"
      using iv(2) unfolding inv_excl_def by blast
    then obtain t where t: "taxi_of s k = Some t" "\<not> available t"
      using h1 by blast
    have "adj_step (s\<lparr>adjudicator_thread := AClaim rid k\<rparr>) =
                Some (s\<lparr>adjudicator_thread := ARelease rid False\<rparr>)" for rid
      using t by (simp add: adj_step_def taxi_of_def)
    then show ?thesis using t by blast
  qed
  have counts: "distinct (map svc_taxi (services s)) \<and>
            count_assigned s \<le> length (taxis s) \<and>
            count_assigned s + count_pending s = count_submit es \<and>
            ((\<forall>kt \<in> set (taxis s). \<not> available (snd kt)) \<and>
             adj_claimed (adjudicator_thread s) = None \<longrightarrow>
               count_assigned s = length (taxis s) \<and>
               count_pending s + length (taxis s) = count_submit es)"
    if free: "\<forall>t \<in> set fleet. available t"
      and nr: "\<forall>th \<in> set (services s). \<not> released (svc_pc th)"
  proof -
    have av: "inv_avail s" using inv_avail_run [OF assms free] .
    have d1: "distinct (map svc_taxi (services s))"
      using holders_distinct(1) [OF iv(2) nr] by simp
    have ca: "count_assigned s =
         length (services s) + (if \<exists>rid k. adjudicator_thread s = ASpawn rid k then 1 else 0)"
      using count_assigned_threads [OF iv(1,3)] .
    have sp: "(if \<exists>rid k. adjudicator_thread s = ASpawn rid k then 1 else 0) \<le> length (claimed_list s)"
      by (cases "adjudicator_thread s") (auto simp: claimed_list_def)
    have le: "count_assigned s \<le> length (taxis s)"
      using holders_le_taxis [OF iv(2) nr] ca sp by linarith
    have m: "length (requests_index s) = count_submit es"
      using index_length_run [OF inv_req_fleet assms] by simp
    have tot: "count_assigned s + count_pending s = count_submit es"
      using pending_or_assigned [OF iv(1)] m by simp
    have dk: "distinct (map fst (taxis s))" using iv(4) distinct_fleet by simp
    have full: "count_assigned s = length (taxis s) \<and>
               count_pending s + length (taxis s) = count_submit es"
      if "\<forall>kt \<in> set (taxis s). \<not> available (snd kt)"
        and idle: "adj_claimed (adjudicator_thread s) = None"
    proof -
      have "length (services s) = length (taxis s)"
        using all_taken [OF av iv(2) nr dk that] .
      moreover have "\<not> (\<exists>rid k. adjudicator_thread s = ASpawn rid k)" using idle by auto
      ultimately have "count_assigned s = length (taxis s)" using ca by simp
      then show ?thesis using tot by simp
    qed
    show ?thesis using d1 le tot full by blast
  qed
  show ?thesis
  proof (intro conjI)
    show "\<forall>k r1 r2 q1 q2.
            req_of s r1 = Some q1 \<and> req_of s r2 = Some q2 \<and>
            assigned_taxi q1 = Some k \<and> assigned_taxi q2 = Some k \<and>
            holding s r1 \<and> holding s r2 \<longrightarrow> r1 = r2"
      using refs by blast
    show "\<forall>k. holders s k \<le> 1 \<and>
            (holders s k = 1 \<longrightarrow>
               (\<exists>t. taxi_of s k = Some t \<and> \<not> available t) \<and>
               (\<forall>rid. adj_step (s\<lparr>adjudicator_thread := AClaim rid k\<rparr>) =
                         Some (s\<lparr>adjudicator_thread := ARelease rid False\<rparr>)))"
      using one busy by blast
    show "map fst (taxis s) = map fst (taxis (fleet_system fleet))" by (rule iv(4))
    show "(\<forall>t \<in> set fleet. available t) \<and> (\<forall>th \<in> set (services s). \<not> released (svc_pc th)) \<longrightarrow>
            distinct (map svc_taxi (services s)) \<and>
            count_assigned s \<le> length (taxis s) \<and>
            count_assigned s + count_pending s = count_submit es \<and>
            ((\<forall>kt \<in> set (taxis s). \<not> available (snd kt)) \<and>
             adj_claimed (adjudicator_thread s) = None \<longrightarrow>
               count_assigned s = length (taxis s) \<and>
               count_pending s + length (taxis s) = count_submit es)"
      using counts by blast
  qed
qed

theorem taxi_held_by_one_trip_witness:
  "(\<exists>s. run contention_prefix (fleet_system [new_Taxi 1 ''TAXI-101'' (0, 0)]) = Some s \<and>
      holders s 1 = 1 \<and> length (taxis s) = 1 \<and> count_submit contention_prefix = 2 \<and>
      count_assigned s = 1 \<and> count_pending s = 1 \<and>
      adj_step (s\<lparr>adjudicator_thread := AClaim 2 1\<rparr>) = Some (s\<lparr>adjudicator_thread := ARelease 2 False\<rparr>)) \<and>
   (\<exists>s q1 q2. run overlap_events (fleet_system [new_Taxi 1 ''TAXI-101'' (0, 0)]) = Some s \<and>
      req_of s 1 = Some q1 \<and> req_of s 2 = Some q2 \<and>
      assigned_taxi q1 = Some 1 \<and> assigned_taxi q2 = Some 1 \<and>
      holding s 2 \<and> \<not> holding s 1)"
proof -
  obtain s where s: "run contention_prefix one_taxi = Some s"
    "services s = [\<lparr>svc_req = 1, svc_taxi = 1, svc_pc = SStart\<rparr>]"
    "taxis s = [(1, (new_Taxi 1 ''TAXI-101'' (0, 0))\<lparr>available := False\<rparr>)]"
    "adjudicator_thread s = ATop"
    using run_contention_prefix by (elim exE conjE) auto
  have h: "holders s 1 = 1" by (simp add: holders_def s(2,4) active_on_def)
  have m: "count_submit contention_prefix = 2"
    by (simp add: count_submit_def contention_prefix_def)
  have free: "\<forall>t \<in> set [new_Taxi 1 ''TAXI-101'' (0, 0)]. available t" by (simp add: new_Taxi_def)
  have nr: "\<forall>th \<in> set (services s). \<not> released (svc_pc th)" by (simp add: s(2))
  have busy: "\<forall>kt \<in> set (taxis s). \<not> available (snd kt)" by (simp add: s(3))
  have idle: "adj_claimed (adjudicator_thread s) = None" by (simp add: s(4))
  have r: "run contention_prefix (fleet_system [new_Taxi 1 ''TAXI-101'' (0, 0)]) = Some s"
    using s(1) by (simp add: one_taxi_def)
  note th = taxi_held_by_one_trip [OF r]
  have c: "count_assigned s = length (taxis s) \<and>
      count_pending s + length (taxis s) = count_submit contention_prefix"
    using th free nr busy idle by blast
  have a: "adj_step (s\<lparr>adjudicator_thread := AClaim 2 1\<rparr>) =
      Some (s\<lparr>adjudicator_thread := ARelease 2 False\<rparr>)"
    using th h by blast
  have l: "length (taxis s) = 1" by (simp add: s(3))
  have first: "\<exists>s. run contention_prefix (fleet_system [new_Taxi 1 ''TAXI-101'' (0, 0)]) = Some s \<and>
      holders s 1 = 1 \<and> length (taxis s) = 1 \<and> count_submit contention_prefix = 2 \<and>
      count_assigned s = 1 \<and> count_pending s = 1 \<and>
      adj_step (s\<lparr>adjudicator_thread := AClaim 2 1\<rparr>) = Some (s\<lparr>adjudicator_thread := ARelease 2 False\<rparr>)"
    using r h m c a l by (intro exI [of _ s]) simp
  obtain u where u: "run overlap_events one_taxi = Some u"
    "services u = [\<lparr>svc_req = 1, svc_taxi = 1, svc_pc = SSetFare\<rparr>,
                   \<lparr>svc_req = 2, svc_taxi = 1, svc_pc = SStart\<rparr>]"
    "map (\<lambda>p. (fst p, assigned_taxi (snd p), completed (snd p))) (requests_index u) =
         [(1, Some 1, False), (2, Some 1, False)]"
    using run_overlap by (elim exE conjE) auto
  have ru: "run overlap_events (fleet_system [new_Taxi 1 ''TAXI-101'' (0, 0)]) = Some u"
    using u(1) by (simp add: one_taxi_def)
  obtain p1 p2 where ix: "requests_index u = [p1, p2]"
    and p: "fst p1 = 1" "assigned_taxi (snd p1) = Some 1" "fst p2 = 2" "assigned_taxi (snd p2) = Some 1"
    using u(3) by (auto simp: map_eq_Cons_conv)
  have q1: "req_of u 1 = Some (snd p1)" and q2: "req_of u 2 = Some (snd p2)"
    using ix p by (cases p1; cases p2; simp add: req_of_def)+
  have h2: "holding u 2" by (simp add: holding_def u(2))
  have "holding u 1 \<longrightarrow> (1::int) = 2"
    using taxi_held_by_one_trip [OF ru] q1 q2 p(2,4) h2 by blast
  then have h1: "\<not> holding u 1" by simp
  have second: "\<exists>s q1 q2. run overlap_events (fleet_system [new_Taxi 1 ''TAXI-101'' (0, 0)]) = Some s \<and>
      req_of s 1 = Some q1 \<and> req_of s 2 = Some q2 \<and>
      assigned_taxi q1 = Some 1 \<and> assigned_taxi q2 = Some 1 \<and>
      holding s 2 \<and> \<not> holding s 1"
    using ru q1 q2 p(2,4) h2 h1 by blast
  show ?thesis using first second by (rule conjI)
qed

subsection \<open>The snapshot shares no object with the engine\<close>

lemma lookup_append: "lookup h a = Some ob \<Longrightarrow> lookup (h @ e) a = Some ob"
  by (auto simp: lookup_def nth_append split: if_splits)

lemma is_taxi_itemD:
  "is_taxi_item h kv \<Longrightarrow> \<exists>tid a t. kv = (VInt tid, VRef a) \<and> lookup h a = Some (OTaxi t)"
  by (auto simp: is_taxi_item_def split: prod.splits pyval.splits option.splits pyobj.splits)

lemma is_request_refD:
  "is_request_ref h v \<Longrightarrow> \<exists>a r. v = VRef a \<and> lookup h a = Some (ORequest r)"
  by (auto simp: is_request_ref_def split: pyval.splits option.splits pyobj.splits)

lemma is_series_itemD:
  "is_series_item h kv \<Longrightarrow>
     \<exists>k a v. kv = (VStr k, VRef a) \<and> lookup h a = Some (OList v) \<and> obj_refs (OList v) = {}"
  by (auto simp: is_series_item_def list_all_iff split: prod.splits pyval.splits option.splits pyobj.splits)

lemma is_taxi_item_append: "is_taxi_item h kv \<Longrightarrow> is_taxi_item (h @ e) kv"
proof -
  assume "is_taxi_item h kv"
  then obtain tid a t where kv: "kv = (VInt tid, VRef a)" "lookup h a = Some (OTaxi t)"
    using is_taxi_itemD by blast
  then have "lookup (h @ e) a = Some (OTaxi t)" by (rule_tac lookup_append)
  then show ?thesis using kv by (simp add: is_taxi_item_def)
qed

lemma is_request_ref_append: "is_request_ref h v \<Longrightarrow> is_request_ref (h @ e) v"
proof -
  assume "is_request_ref h v"
  then obtain a r where v: "v = VRef a" "lookup h a = Some (ORequest r)"
    using is_request_refD by blast
  then have "lookup (h @ e) a = Some (ORequest r)" by (rule_tac lookup_append)
  then show ?thesis using v by (simp add: is_request_ref_def)
qed

lemma is_series_item_append: "is_series_item h kv \<Longrightarrow> is_series_item (h @ e) kv"
proof -
  assume a: "is_series_item h kv"
  then obtain k b v where kv: "kv = (VStr k, VRef b)" "lookup h b = Some (OList v)"
    using is_series_itemD by blast
  then have "lookup (h @ e) b = Some (OList v)" by (rule_tac lookup_append)
  then show ?thesis using a kv by (simp add: is_series_item_def)
qed

lemma closed_from_append:
  assumes "closed_from n h" "obj_refs ob \<subseteq> {n..<Suc (length h)}"
  shows "closed_from n (h @ [ob])"
  unfolding closed_from_def
proof (intro allI impI)
  fix a assume a: "n \<le> a \<and> a < length (h @ [ob])"
  show "obj_refs ((h @ [ob]) ! a) \<subseteq> {n..<length (h @ [ob])}"
  proof (cases "a < length h")
    case True
    then have "obj_refs (h ! a) \<subseteq> {n..<length h}" using assms(1) a by (simp add: closed_from_def)
    then show ?thesis using True by (auto simp: nth_append)
  next
    case False
    then have "a = length h" using a by simp
    then show ?thesis using assms(2) by simp
  qed
qed

lemma closed_from_start: "closed_from (length h) h"
  by (auto simp: closed_from_def)

lemma taxi_view_refs [simp]: "obj_refs (taxi_view t) = {}"
  by (simp add: taxi_view_def point_val_def)

lemma request_view_refs [simp]: "obj_refs (request_view r) = {}"
  by (simp add: request_view_def point_val_def)

lemma snap_taxis_total:
  assumes "list_all (is_taxi_item h) items" "n \<le> length h" "closed_from n h"
  shows "\<exists>out e. snap_taxis items h = Some (out, h @ e) \<and> closed_from n (h @ e) \<and>
           obj_refs (ODict out) \<subseteq> {n..<length (h @ e)}"
  using assms
proof (induction items arbitrary: h)
  case Nil
  then show ?case by (intro exI [of _ "[]"]) simp
next
  case (Cons kv items)
  from Cons.prems(1) obtain tid a t where kv: "kv = (VInt tid, VRef a)" "lookup h a = Some (OTaxi t)"
    using is_taxi_itemD by fastforce
  let ?h1 = "h @ [taxi_view t]"
  have 1: "list_all (is_taxi_item ?h1) items"
    using Cons.prems(1) by (auto simp: list_all_iff intro: is_taxi_item_append)
  have 2: "n \<le> length ?h1" using Cons.prems(2) by simp
  have 3: "closed_from n ?h1" using Cons.prems(3) by (intro closed_from_append) simp_all
  from Cons.IH [OF 1 2 3] obtain out e where
    ih: "snap_taxis items ?h1 = Some (out, ?h1 @ e)" "closed_from n (?h1 @ e)"
        "obj_refs (ODict out) \<subseteq> {n..<length (?h1 @ e)}"
    by blast
  have "snap_taxis (kv # items) h = Some ((VInt tid, VRef (length h)) # out, h @ (taxi_view t # e))"
    using kv ih(1) by (simp add: alloc_def)
  moreover have "closed_from n (h @ (taxi_view t # e))" using ih(2) by simp
  moreover have "obj_refs (ODict ((VInt tid, VRef (length h)) # out)) \<subseteq> {n..<length (h @ (taxi_view t # e))}"
    using ih(3) Cons.prems(2) by auto
  ultimately show ?case by blast
qed

lemma snap_pending_total:
  assumes "list_all (is_request_ref h) vs" "n \<le> length h" "closed_from n h"
  shows "\<exists>out e. snap_pending vs h = Some (out, h @ e) \<and> closed_from n (h @ e) \<and>
           obj_refs (OList out) \<subseteq> {n..<length (h @ e)}"
  using assms
proof (induction vs arbitrary: h)
  case Nil
  then show ?case by (intro exI [of _ "[]"]) simp
next
  case (Cons v vs)
  from Cons.prems(1) obtain a r where v: "v = VRef a" "lookup h a = Some (ORequest r)"
    using is_request_refD by fastforce
  show ?case
  proof (cases "\<not> completed r \<and> assigned_taxi r = None")
    case True
    let ?h1 = "h @ [request_view r]"
    have 1: "list_all (is_request_ref ?h1) vs"
      using Cons.prems(1) by (auto simp: list_all_iff intro: is_request_ref_append)
    have 2: "n \<le> length ?h1" using Cons.prems(2) by simp
    have 3: "closed_from n ?h1" using Cons.prems(3) by (intro closed_from_append) simp_all
    from Cons.IH [OF 1 2 3] obtain out e where
      ih: "snap_pending vs ?h1 = Some (out, ?h1 @ e)" "closed_from n (?h1 @ e)"
          "obj_refs (OList out) \<subseteq> {n..<length (?h1 @ e)}"
      by blast
    have "snap_pending (v # vs) h = Some (VRef (length h) # out, h @ (request_view r # e))"
      using v ih(1) True by (simp add: alloc_def)
    moreover have "closed_from n (h @ (request_view r # e))" using ih(2) by simp
    moreover have "obj_refs (OList (VRef (length h) # out)) \<subseteq> {n..<length (h @ (request_view r # e))}"
      using ih(3) Cons.prems(2) by auto
    ultimately show ?thesis by blast
  next
    case False
    have 1: "list_all (is_request_ref h) vs" using Cons.prems(1) by simp
    from Cons.IH [OF 1 Cons.prems(2,3)] obtain out e where
      ih: "snap_pending vs h = Some (out, h @ e)" "closed_from n (h @ e)"
          "obj_refs (OList out) \<subseteq> {n..<length (h @ e)}"
      by blast
    have "snap_pending (v # vs) h = Some (out, h @ e)"
      using v ih(1) False by auto
    then show ?thesis using ih(2,3) by blast
  qed
qed

lemma snap_series_total:
  assumes "list_all (is_series_item h) items" "n \<le> length h" "closed_from n h"
  shows "\<exists>out e. snap_series items h = Some (out, h @ e) \<and> closed_from n (h @ e) \<and>
           obj_refs (ODict out) \<subseteq> {n..<length (h @ e)}"
  using assms
proof (induction items arbitrary: h)
  case Nil
  then show ?case by (intro exI [of _ "[]"]) simp
next
  case (Cons kv items)
  from Cons.prems(1) obtain k a v where kv: "kv = (VStr k, VRef a)" "lookup h a = Some (OList v)"
      "obj_refs (OList v) = {}"
    using is_series_itemD by fastforce
  let ?h1 = "h @ [OList v]"
  have 1: "list_all (is_series_item ?h1) items"
    using Cons.prems(1) by (auto simp: list_all_iff intro: is_series_item_append)
  have 2: "n \<le> length ?h1" using Cons.prems(2) by simp
  have 3: "closed_from n ?h1" using Cons.prems(3) kv(3) by (intro closed_from_append) simp_all
  from Cons.IH [OF 1 2 3] obtain out e where
    ih: "snap_series items ?h1 = Some (out, ?h1 @ e)" "closed_from n (?h1 @ e)"
        "obj_refs (ODict out) \<subseteq> {n..<length (?h1 @ e)}"
    by blast
  have "snap_series (kv # items) h = Some ((VStr k, VRef (length h)) # out, h @ (OList v # e))"
    using kv ih(1) by (simp add: alloc_def)
  moreover have "closed_from n (h @ (OList v # e))" using ih(2) by simp
  moreover have "obj_refs (ODict ((VStr k, VRef (length h)) # out)) \<subseteq> {n..<length (h @ (OList v # e))}"
    using ih(3) Cons.prems(2) by auto
  ultimately show ?case by blast
qed

lemma reach_closed:
  assumes "closed_from n h" "val_refs v \<subseteq> {n..<length h}"
  shows "a \<in> reach h v \<Longrightarrow> a \<in> {n..<length h}"
proof (induction rule: reach.induct)
  case (root a)
  then show ?case using assms(2) by blast
next
  case (follow a b)
  then have "obj_refs (h ! a) \<subseteq> {n..<length h}" using assms(1) by (simp add: closed_from_def)
  then show ?case using follow by blast
qed

lemma closed_from_snoc:
  assumes "closed_from n h" "obj_refs ob \<subseteq> {n..<length h}"
  shows "closed_from n (h @ [ob])"
proof (rule closed_from_append [OF assms(1)])
  show "obj_refs ob \<subseteq> {n..<Suc (length h)}" using assms(2) by auto
qed

lemma wf_engine_append:
  assumes "wf_engine self h"
  shows "wf_engine self (h @ e)"
proof -
  obtain titems where t: "lookup h (self_taxis self) = Some (ODict titems)"
      "list_all (is_taxi_item h) titems"
    using assms by (auto simp: wf_engine_def split: option.splits pyobj.splits)
  obtain ritems where r: "lookup h (self_requests_index self) = Some (ODict ritems)"
      "list_all (is_request_ref h) (map snd ritems)"
    using assms by (auto simp: wf_engine_def split: option.splits pyobj.splits)
  obtain sitems where s: "lookup h (self_time_series self) = Some (ODict sitems)"
      "list_all (is_series_item h) sitems"
    using assms by (auto simp: wf_engine_def split: option.splits pyobj.splits)
  obtain dn where c: "lookup h (self_completed_services self) = Some (OList dn)"
    using assms by (auto simp: wf_engine_def split: option.splits pyobj.splits)
  have t': "list_all (is_taxi_item (h @ e)) titems"
    using t(2) by (auto simp: list_all_iff intro: is_taxi_item_append)
  have r': "list_all (is_request_ref (h @ e)) (map snd ritems)"
    using r(2) by (auto simp: list_all_iff intro: is_request_ref_append)
  have s': "list_all (is_series_item (h @ e)) sitems"
    using s(2) by (auto simp: list_all_iff intro: is_series_item_append)
  show ?thesis
    using lookup_append [OF t(1), of e] lookup_append [OF r(1), of e]
      lookup_append [OF s(1), of e] lookup_append [OF c, of e] t' r' s'
    by (simp add: wf_engine_def)
qed

text \<open>
  Claim C9. On a store laid out as the engine lays it out, \<^verbatim>\<open>get_snapshot\<close> returns, and
  leaves every object that existed before the call as it was. Every object a caller can
  reach from the returned value was allocated by the call: none is an object of the
  engine. So a store obtained by changing objects reachable from the snapshot, in any
  way, has the objects that existed before the call unchanged, the taxi dict, the
  request index, the completed list, the time series and the instances they hold among
  them; the profit and the flags are plain values. The locks are not part of this model.
\<close>

theorem get_snapshot_returns_copies:
  assumes "wf_engine self h"
  shows "\<exists>v h'. get_snapshot self h = Some (v, h') \<and>
           take (length h) h' = h \<and>
           (\<forall>a \<in> reach h' v. length h \<le> a \<and> a < length h') \<and>
           (\<forall>h''. length h'' = length h' \<and>
                  (\<forall>a < length h'. a \<notin> reach h' v \<longrightarrow> h'' ! a = h' ! a) \<longrightarrow>
                  take (length h) h'' = h \<and> wf_engine self h'')"
proof -
  let ?n = "length h"
  obtain titems where t: "lookup h (self_taxis self) = Some (ODict titems)"
      "list_all (is_taxi_item h) titems"
    using assms by (auto simp: wf_engine_def split: option.splits pyobj.splits)
  obtain ritems where r: "lookup h (self_requests_index self) = Some (ODict ritems)"
      "list_all (is_request_ref h) (map snd ritems)"
    using assms by (auto simp: wf_engine_def split: option.splits pyobj.splits)
  obtain sitems where s: "lookup h (self_time_series self) = Some (ODict sitems)"
      "list_all (is_series_item h) sitems"
    using assms by (auto simp: wf_engine_def split: option.splits pyobj.splits)
  obtain dn where c: "lookup h (self_completed_services self) = Some (OList dn)"
    using assms by (auto simp: wf_engine_def split: option.splits pyobj.splits)

  obtain tv e1 where 1: "snap_taxis titems h = Some (tv, h @ e1)" "closed_from ?n (h @ e1)"
      "obj_refs (ODict tv) \<subseteq> {?n..<length (h @ e1)}"
    using snap_taxis_total [OF t(2) order_refl closed_from_start] by blast
  define h2 where "h2 = (h @ e1) @ [ODict tv]"
  have "closed_from ?n ((h @ e1) @ [ODict tv])" by (rule closed_from_snoc [OF 1(2,3)])
  then have h2: "closed_from ?n h2" "?n \<le> length h2" by (simp_all add: h2_def)
  have h2h: "h2 = h @ (e1 @ [ODict tv])" by (simp add: h2_def)
  have r2: "lookup h2 (self_requests_index self) = Some (ODict ritems)"
    unfolding h2h by (rule lookup_append [OF r(1)])
  have "list_all (is_request_ref h2) (map snd ritems)"
    unfolding h2h using r(2) by (auto simp: list_all_iff intro: is_request_ref_append)
  from snap_pending_total [OF this h2(2,1)]
  obtain pv e3 where 3: "snap_pending (map snd ritems) h2 = Some (pv, h2 @ e3)"
      "closed_from ?n (h2 @ e3)" "obj_refs (OList pv) \<subseteq> {?n..<length (h2 @ e3)}"
    by blast
  define h4 where "h4 = (h2 @ e3) @ [OList pv]"
  have "closed_from ?n ((h2 @ e3) @ [OList pv])" by (rule closed_from_snoc [OF 3(2,3)])
  then have h4: "closed_from ?n h4" "?n \<le> length h4" using h2(2) by (simp_all add: h4_def)
  have h4h: "h4 = h @ (e1 @ [ODict tv] @ e3 @ [OList pv])" by (simp add: h4_def h2_def)
  have s4: "lookup h4 (self_time_series self) = Some (ODict sitems)"
    unfolding h4h by (rule lookup_append [OF s(1)])
  have "list_all (is_series_item h4) sitems"
    unfolding h4h using s(2) by (auto simp: list_all_iff intro: is_series_item_append)
  from snap_series_total [OF this h4(2,1)]
  obtain sv e5 where 5: "snap_series sitems h4 = Some (sv, h4 @ e5)"
      "closed_from ?n (h4 @ e5)" "obj_refs (ODict sv) \<subseteq> {?n..<length (h4 @ e5)}"
    by blast
  define h6 where "h6 = (h4 @ e5) @ [ODict sv]"
  have "closed_from ?n ((h4 @ e5) @ [ODict sv])" by (rule closed_from_snoc [OF 5(2,3)])
  then have h6: "closed_from ?n h6" "?n \<le> length h6" using h4(2) by (simp_all add: h6_def)
  have h6h: "h6 = h @ (e1 @ [ODict tv] @ e3 @ [OList pv] @ e5 @ [ODict sv])"
    by (simp add: h6_def h4h)
  have c6: "lookup h6 (self_completed_services self) = Some (OList dn)"
    unfolding h6h by (rule lookup_append [OF c])
  define res where "res = ODict
     [(VStr ''running'', VBool (self_running self)),
      (VStr ''taxis'', VRef (length (h @ e1))),
      (VStr ''pending'', VRef (length (h2 @ e3))),
      (VStr ''completed'', VInt (int (length dn))),
      (VStr ''profit'', VFloat (self_company_monthly_profit self)),
      (VStr ''timeseries'', VRef (length (h4 @ e5)))]"
  define h7 where "h7 = h6 @ [res]"
  have lens: "?n \<le> length (h @ e1)" "length (h @ e1) < length h2" "length h2 \<le> length (h2 @ e3)"
    "length (h2 @ e3) < length h4" "length h4 \<le> length (h4 @ e5)" "length (h4 @ e5) < length h6"
    by (simp_all add: h2_def h4_def h6_def)
  have resrefs: "obj_refs res \<subseteq> {?n..<Suc (length h6)}"
    using lens by (auto simp: res_def)
  have h7: "closed_from ?n h7"
    unfolding h7_def by (rule closed_from_append [OF h6(1) resrefs])
  have val: "get_snapshot self h = Some (VRef (length h6), h7)"
    using t(1) 1(1) r2 3(1) s4 5(1) c6
    by (simp add: get_snapshot_def alloc_def h2_def [symmetric] h4_def [symmetric]
        h6_def [symmetric] del: append_assoc) (simp add: h7_def res_def)
  have h7h: "h7 = h @ (e1 @ [ODict tv] @ e3 @ [OList pv] @ e5 @ [ODict sv] @ [res])"
    by (simp add: h7_def h6h)
  have pre: "take ?n h7 = h" by (simp add: h7h)
  have fresh: "?n \<le> a \<and> a < length h7" if "a \<in> reach h7 (VRef (length h6))" for a
  proof -
    have "val_refs (VRef (length h6)) \<subseteq> {?n..<length h7}"
      using h6(2) by (simp add: h7_def)
    from reach_closed [OF h7 this that] show ?thesis by simp
  qed
  have frame: "take ?n h'' = h \<and> wf_engine self h''"
    if len: "length h'' = length h7"
      and same: "\<forall>a < length h7. a \<notin> reach h7 (VRef (length h6)) \<longrightarrow> h'' ! a = h7 ! a"
    for h''
  proof -
    have "take ?n h'' = take ?n h7"
    proof (rule nth_equalityI)
      show "length (take ?n h'') = length (take ?n h7)" using len by simp
    next
      fix a assume "a < length (take ?n h'')"
      then have a: "a < ?n" "a < length h7" using len by simp_all
      then have "a \<notin> reach h7 (VRef (length h6))" using fresh [of a] by auto
      then show "take ?n h'' ! a = take ?n h7 ! a" using same a by simp
    qed
    then have eq: "take ?n h'' = h" using pre by simp
    then have "h'' = h @ drop ?n h''" by (metis append_take_drop_id)
    then have "wf_engine self h''" using wf_engine_append [OF assms, of "drop ?n h''"] by simp
    then show ?thesis using eq by simp
  qed
  show ?thesis
    using val pre fresh frame by blast
qed

theorem get_snapshot_returns_copies_witness:
  "wf_engine demo_self demo_heap \<and>
   (\<exists>h'. get_snapshot demo_self demo_heap = Some (VRef 17, h') \<and> length h' = 18 \<and>
      take 9 h' = demo_heap \<and>
      h' ! 17 = ODict
        [(VStr ''running'', VBool True), (VStr ''taxis'', VRef 10), (VStr ''pending'', VRef 12),
         (VStr ''completed'', VInt 0), (VStr ''profit'', VFloat 0), (VStr ''timeseries'', VRef 16)] \<and>
      h' ! 16 = ODict [(VStr ''timestamps'', VRef 13), (VStr ''completed'', VRef 14),
         (VStr ''profit'', VRef 15)] \<and>
      h' ! 13 = OList [VFloat 1])"
proof -
  have wf: "wf_engine demo_self demo_heap"
    by (simp add: wf_engine_def demo_self_def demo_heap_def lookup_def is_taxi_item_def
        is_request_ref_def is_series_item_def)
  have ev: "\<exists>h'. get_snapshot demo_self demo_heap = Some (VRef 17, h') \<and> length h' = 18 \<and>
      h' ! 17 = ODict
        [(VStr ''running'', VBool True), (VStr ''taxis'', VRef 10), (VStr ''pending'', VRef 12),
         (VStr ''completed'', VInt 0), (VStr ''profit'', VFloat 0), (VStr ''timeseries'', VRef 16)] \<and>
      h' ! 16 = ODict [(VStr ''timestamps'', VRef 13), (VStr ''completed'', VRef 14),
         (VStr ''profit'', VRef 15)] \<and>
      h' ! 13 = OList [VFloat 1]"
    by (simp add: get_snapshot_def demo_self_def demo_heap_def lookup_def alloc_def
        new_Taxi_def new_RequestObj_def)
  have len: "length demo_heap = 9" by (simp add: demo_heap_def)
  show ?thesis
    using get_snapshot_returns_copies [OF wf] wf ev len by auto
qed

subsection \<open>The steps of the adjudicator and \<^verbatim>\<open>_assign_taxi\<close>\<close>

lemma adj_run_add:
  "adj_run m s = Some s1 \<Longrightarrow> adj_run n s1 = Some s2 \<Longrightarrow> adj_run (m + n) s = Some s2"
  by (induction m arbitrary: s) (auto split: option.splits)

lemma adj_run_scan:
  assumes "req_of s rid = Some r" "distinct (map fst (taxis s))" "set ts \<subseteq> set (taxis s)"
  shows "adj_run (length ts) (s\<lparr>adjudicator_thread := AScan rid (map fst ts) cands\<rparr>) =
         Some (s\<lparr>adjudicator_thread :=
                  AScan rid [] (foldl (\<lambda>cands kt. scan_taxi (origin r) kt cands) cands ts)\<rparr>)"
  using assms(3)
proof (induction ts arbitrary: cands)
  case Nil
  then show ?case by simp
next
  case (Cons kt ts)
  obtain k t where kt: "kt = (k, t)" by (cases kt)
  have "taxi_of s k = Some t" using Cons.prems kt assms(2) by (simp add: taxi_of_def)
  then have "adj_step (s\<lparr>adjudicator_thread := AScan rid (map fst (kt # ts)) cands\<rparr>) =
      Some (s\<lparr>adjudicator_thread := AScan rid (map fst ts) (scan_taxi (origin r) kt cands)\<rparr>)"
    using assms(1) kt by (simp add: adj_step_def req_of_def taxi_of_def)
  then show ?case using Cons.IH [of "scan_taxi (origin r) kt cands"] Cons.prems by simp
qed

text \<open>
  From the first statement of \<^verbatim>\<open>_assign_taxi\<close> the adjudicator, left alone, reaches the
  release of the semaphore with the result and the state of \<open>assign_taxi\<close>.
\<close>

lemma adj_run_assign_taxi:
  assumes r: "req_of s rid = Some r" and d: "distinct (map fst (taxis s))"
    and a: "assign_taxi s rid = Some (b, s')"
  shows "\<exists>n. adj_run n (s\<lparr>adjudicator_thread := AScan rid (map fst (taxis s)) []\<rparr>) =
              Some (s'\<lparr>adjudicator_thread := ARelease rid b\<rparr>)"
proof -
  let ?cs = "scan_all (origin r) (taxis s)"
  let ?s1 = "s\<lparr>adjudicator_thread := AScan rid [] ?cs\<rparr>"
  have scan: "adj_run (length (taxis s)) (s\<lparr>adjudicator_thread := AScan rid (map fst (taxis s)) []\<rparr>) =
      Some ?s1"
    using adj_run_scan [OF r d, of "taxis s" "[]"] by (simp add: scan_all_def)
  show ?thesis
  proof (cases "?cs = []")
    case True
    then have res: "b = False" "s' = s" using a r by (simp_all add: assign_taxi_def)
    have "adj_run 1 ?s1 = Some (s\<lparr>adjudicator_thread := ARelease rid False\<rparr>)"
      using True r by (simp add: adj_step_def req_of_def)
    from adj_run_add [OF scan this] show ?thesis using res by blast
  next
    case False
    let ?k = "snd (hd (sort_candidates (taxis s) ?cs))"
    have "hd (sort_candidates (taxis s) ?cs) \<in> set ?cs"
      using hd_sort_key_min [OF False, of "\<lambda>c. (fst c, - rating_of (taxis s) (snd c))"]
      by (simp add: sort_candidates_def)
    then obtain t where kt: "(?k, t) \<in> set (taxis s)" "available t"
      by (auto simp: in_scan_all)
    have tk: "taxi_of s ?k = Some t" using kt(1) d by (simp add: taxi_of_def)
    have res: "b = True"
      "s' = spawn_service rid ?k (set_assigned rid (taxi_id t) (claim_taxi ?k s))"
      using a r False tk kt(2) by (simp_all add: assign_taxi_def Let_def)
    have "adj_run 4 ?s1 = Some (s'\<lparr>adjudicator_thread := ARelease rid True\<rparr>)"
      using False r tk kt(2) unfolding res(2)
      by (simp add: eval_nat_numeral adj_step_def req_of_def taxi_of_def op_defs
          AList.map_of_map_entry)
    from adj_run_add [OF scan this] show ?thesis using res(1) by blast
  qed
qed

end
